theory Spec2Isabelle
  imports Complex_Main
begin

section \<open>The boundary reflector (lowlevel.py, \<open>reflect\<close>)\<close>

text \<open>
  Both callers hand \<open>reflect\<close> an integer index array (\<open>np.arange(..., dtype=np.int)\<close> in
  \<open>colfilter\<close> and \<open>colifilt\<close>, \<open>np.arange(-m, r+m)\<close> on integers in \<open>coldfilt\<close>) and
  floating bounds \<open>-0.5\<close> and \<open>r-0.5\<close>; the result indexes the rows of the image. The copy
  \<open>y = np.array(x, copy=True)\<close> keeps the integer element type, so the masked assignment
  \<open>y[t] = 2*maxx - y[t]\<close> stores a float right-hand side into an integer array: numpy
  converts it by truncation toward zero. Index arrays are lists of \<open>int\<close>, the bounds are
  \<open>real\<close>, and \<open>trunc\<close> is that conversion.

  numpy computes \<open>2*maxx - y[t]\<close> in 64-bit floating point and stores into 64-bit integers;
  the definitions compute exactly. The two agree as long as every value met is an integer
  or a half-integer of magnitude below \<open>2^53\<close>, which \<open>exact_range\<close> below guarantees
  (see \<open>pass1_magnitude\<close>); the callers pass indices bounded by the row count plus the
  filter length. Outside that range the code rounds and the definitions do not, and
  nothing is stated about \<open>reflect\<close> there.
\<close>

definition trunc :: "real \<Rightarrow> int" where
  "trunc v = (if 0 \<le> v then \<lfloor>v\<rfloor> else \<lceil>v\<rceil>)"

text \<open>\<open>t = y > maxx; y[t] = 2*maxx - y[t]\<close>\<close>

definition reflect_max :: "real \<Rightarrow> int list \<Rightarrow> int list" where
  "reflect_max maxx y =
     map (\<lambda>v. if real_of_int v > maxx then trunc (2 * maxx - real_of_int v) else v) y"

text \<open>\<open>t = y < minx; y[t] = 2*minx - y[t]\<close>\<close>

definition reflect_min :: "real \<Rightarrow> int list \<Rightarrow> int list" where
  "reflect_min minx y =
     map (\<lambda>v. if real_of_int v < minx then trunc (2 * minx - real_of_int v) else v) y"

text \<open>
  \<open>while np.any(y < minx): ...\<close>. The loop need not end, so it is a partial function:
  \<open>None\<close> is a run that never returns.
\<close>

partial_function (option) reflect_loop :: "real \<Rightarrow> real \<Rightarrow> int list \<Rightarrow> int list option" where
  "reflect_loop minx maxx y =
     (if list_ex (\<lambda>v. real_of_int v < minx) y
      then reflect_loop minx maxx (reflect_max maxx (reflect_min minx y))
      else Some y)"

declare reflect_loop.simps [code]

definition reflect :: "int list \<Rightarrow> real \<Rightarrow> real \<Rightarrow> int list option" where
  "reflect x minx maxx = reflect_loop minx maxx (reflect_max maxx x)"

text \<open>
  A bound is half-integral when its double is an integer: the integers and the
  integers plus one half, which is what every caller passes.
\<close>

definition half_integral :: "real \<Rightarrow> bool" where
  "half_integral b = (2 * b = real_of_int \<lfloor>2 * b\<rfloor>)"

text \<open>
  The inputs on which the floating-point arithmetic of \<open>reflect\<close> is exact: indices and
  bounds of magnitude at most \<open>2^50\<close>.
\<close>

definition exact_range :: "int list \<Rightarrow> real \<Rightarrow> real \<Rightarrow> bool" where
  "exact_range x minx maxx =
     (list_all (\<lambda>v. \<bar>v\<bar> \<le> 2 ^ 50) x \<and> \<bar>minx\<bar> \<le> 2 ^ 50 \<and> \<bar>maxx\<bar> \<le> 2 ^ 50)"

text \<open>One pass of the loop body on a single element.\<close>

definition pass1 :: "real \<Rightarrow> real \<Rightarrow> int \<Rightarrow> int" where
  "pass1 minx maxx v =
     (let w = (if real_of_int v < minx then trunc (2 * minx - real_of_int v) else v)
      in if real_of_int w > maxx then trunc (2 * maxx - real_of_int w) else w)"

text \<open>How far an element lies below the lower bound; the loop's variant.\<close>

definition deficit :: "real \<Rightarrow> int \<Rightarrow> nat" where
  "deficit minx v = nat (\<lceil>minx\<rceil> - v)"

section \<open>Errors, matrices and index arrays\<close>

text \<open>
  A raised exception is a value: \<open>ValueError\<close> with the message of the source,
  \<open>IndexError\<close> for an index outside an array, \<open>UnboundLocalError\<close> for a local
  variable read before any assignment. \<open>LibraryError\<close> stands for the calls
  whose outcome the source leaves to the convolution library (an empty operand, a kernel
  longer than the columns it filters); no result below depends on what the library
  does there.
\<close>

datatype error = ValueError string | IndexError | UnboundLocalError | LibraryError

text \<open>Sequencing: the first exception ends the computation.\<close>

definition bind_e :: "error + 'a \<Rightarrow> ('a \<Rightarrow> error + 'b) \<Rightarrow> error + 'b" where
  "bind_e m f = (case m of Inl e \<Rightarrow> Inl e | Inr v \<Rightarrow> f v)"

text \<open>
  A 2-D array is the list of its rows, all of one length. An array without rows has no
  column count in this representation.
\<close>

type_synonym matrix = "real list list"

definition nrows :: "'a list list \<Rightarrow> nat" where
  "nrows X = length X"

definition ncols :: "'a list list \<Rightarrow> nat" where
  "ncols X = (case X of [] \<Rightarrow> 0 | row # _ \<Rightarrow> length row)"

definition is_matrix :: "'a list list \<Rightarrow> bool" where
  "is_matrix X = list_all (\<lambda>row. length row = ncols X) X"

definition zeros :: "nat \<Rightarrow> nat \<Rightarrow> matrix" where
  "zeros r c = replicate r (replicate c 0)"

text \<open>An array of \<open>r\<close> rows and \<open>c\<close> columns.\<close>

definition shaped :: "nat \<Rightarrow> nat \<Rightarrow> 'a list list \<Rightarrow> bool" where
  "shaped r c X = (length X = r \<and> (\<forall>row\<in>set X. length row = c))"

text \<open>\<open>np.arange(start, stop, step)\<close> on integers, for a positive step.\<close>

definition arange :: "int \<Rightarrow> int \<Rightarrow> int \<Rightarrow> int list" where
  "arange start stop step =
     map (\<lambda>k. start + step * int k) [0..<nat ((stop - start + step - 1) div step)]"

text \<open>
  Indexing by an integer: a negative index counts from the end, an index outside the
  array raises. \<open>fancy xs idx\<close> is \<open>xs[idx]\<close> for an index array \<open>idx\<close>; on a matrix
  it is \<open>X[idx,:]\<close>.
\<close>

definition index1 :: "'a list \<Rightarrow> int \<Rightarrow> error + 'a" where
  "index1 xs i =
     (let n = int (length xs)
      in if 0 \<le> i \<and> i < n then Inr (xs ! nat i)
         else if - n \<le> i \<and> i < 0 then Inr (xs ! nat (n + i))
         else Inl IndexError)"

fun fancy :: "'a list \<Rightarrow> int list \<Rightarrow> error + 'a list" where
  "fancy xs [] = Inr []"
| "fancy xs (i # is) =
     bind_e (index1 xs i) (\<lambda>v. bind_e (fancy xs is) (\<lambda>vs. Inr (v # vs)))"

section \<open>The convolution engine (lowlevel.py, \<open>_column_convolve\<close>)\<close>

text \<open>
  Row \<open>n\<close> of the full linear convolution of the columns of \<open>X\<close> with \<open>h\<close> is
  \<open>\<Sum>k. h[k] * X[n-k]\<close>, over the rows that exist. The direct branch
  (\<open>convolve2d(X, h, 'valid')\<close>) keeps the rows computed from whole windows. The other
  branch multiplies the real Fourier transforms of both operands, zero-padded to a power
  of two not below the full length: over the reals that is the full linear convolution,
  of which \<open>_centered\<close> keeps the middle \<open>|R - m| + 1\<close> rows.
\<close>

definition vadd :: "real list \<Rightarrow> real list \<Rightarrow> real list" where
  "vadd u v = map2 (+) u v"

definition vscale :: "real \<Rightarrow> real list \<Rightarrow> real list" where
  "vscale a v = map ((*) a) v"

definition conv_row :: "matrix \<Rightarrow> real list \<Rightarrow> nat \<Rightarrow> real list" where
  "conv_row X h n =
     foldr (\<lambda>k acc. if k \<le> n \<and> n - k < length X then vadd (vscale (h ! k) (X ! (n - k))) acc else acc)
       [0..<length h] (replicate (ncols X) 0)"

definition conv_full :: "matrix \<Rightarrow> real list \<Rightarrow> matrix" where
  "conv_full X h = map (conv_row X h) [0..<length X + length h - 1]"

definition conv_valid :: "matrix \<Rightarrow> real list \<Rightarrow> matrix" where
  "conv_valid X h = map (conv_row X h) [length h - 1..<length X]"

definition centered :: "'a list \<Rightarrow> nat \<Rightarrow> 'a list" where
  "centered arr newsize = take newsize (drop ((length arr - newsize) div 2) arr)"

definition column_convolve :: "matrix \<Rightarrow> real list \<Rightarrow> error + matrix" where
  "column_convolve X h =
     (let h_size = length h; full_size = int (nrows X) + int h_size - 1
      in if h = [] \<or> X = [] \<or> ncols X = 0 then Inl LibraryError
         else if full_size < 32
         then (if h_size \<le> nrows X then Inr (conv_valid X h) else Inl LibraryError)
         else Inr (centered (conv_full X h) (nat \<bar>int (nrows X) - int h_size\<bar> + 1)))"

section \<open>The symmetric filter (lowlevel.py, \<open>colfilter\<close>)\<close>

text \<open>
  \<open>m2 = np.fix(m*0.5)\<close> is \<open>m div 2\<close>; the index array \<open>xe\<close> extends the rows by \<open>m2\<close>
  reflected rows above and below.
\<close>

definition colfilter :: "matrix \<Rightarrow> real list \<Rightarrow> (error + matrix) option" where
  "colfilter X h =
     (let r = int (nrows X); m = int (length h); m2 = m div 2
      in case reflect (arange (- m2) (r + m2) 1) (- 1 / 2) (real_of_int r - 1 / 2) of
           None \<Rightarrow> None
         | Some xe \<Rightarrow> Some (bind_e (fancy X xe) (\<lambda>Xe. column_convolve Xe h)))"

section \<open>The decimating and interpolating filter pairs (lowlevel.py, \<open>coldfilt\<close>, \<open>colifilt\<close>)\<close>

text \<open>A Python slice \<open>xs[start:stop:2]\<close> with \<open>0 \<le> start\<close> and \<open>stop = len(xs)\<close>.\<close>

fun stride2 :: "'a list \<Rightarrow> 'a list" where
  "stride2 [] = []"
| "stride2 [x] = [x]"
| "stride2 (x # y # zs) = x # stride2 zs"

definition slice_from :: "nat \<Rightarrow> 'a list \<Rightarrow> 'a list" where
  "slice_from start xs = stride2 (drop start xs)"

text \<open>
  numpy broadcasting of a 2-D array to the shape \<open>(n, c)\<close>: an axis of length one is
  repeated, any other mismatch raises. \<open>np_binop\<close> is an elementwise binary operator
  on two arrays, both broadcast to their common shape.
\<close>

definition broadcast_to :: "nat \<Rightarrow> nat \<Rightarrow> 'a list list \<Rightarrow> error + 'a list list" where
  "broadcast_to n c V =
     (if (nrows V = n \<or> nrows V = 1) \<and> (V = [] \<or> ncols V = c \<or> ncols V = 1)
      then Inr (map (\<lambda>row. if length row = c then row else replicate c (hd row))
                 (if nrows V = n then V else replicate n (hd V)))
      else Inl (ValueError ''shape mismatch: objects cannot be broadcast to a single shape''))"

definition bdim :: "nat \<Rightarrow> nat \<Rightarrow> nat option" where
  "bdim a b = (if a = b then Some a else if a = 1 then Some b else if b = 1 then Some a else None)"

definition np_binop :: "('a \<Rightarrow> 'a \<Rightarrow> 'a) \<Rightarrow> 'a list list \<Rightarrow> 'a list list \<Rightarrow> error + 'a list list" where
  "np_binop f A B =
     (case (bdim (nrows A) (nrows B), bdim (ncols A) (ncols B)) of
        (Some n, Some c) \<Rightarrow>
          bind_e (broadcast_to n c A) (\<lambda>A'. bind_e (broadcast_to n c B) (\<lambda>B'.
            Inr (map2 (map2 f) A' B')))
      | _ \<Rightarrow> Inl (ValueError ''operands could not be broadcast together''))"

text \<open>\<open>Y[idx,:] = V\<close>: the value is broadcast to the shape of the target rows and stored.\<close>

fun store_rows :: "'a list list \<Rightarrow> int list \<Rightarrow> 'a list list \<Rightarrow> error + 'a list list" where
  "store_rows Y [] V = Inr Y"
| "store_rows Y (i # is) [] = Inr Y"
| "store_rows Y (i # is) (v # vs) =
     (let n = int (length Y)
      in if 0 \<le> i \<and> i < n then store_rows (Y[nat i := v]) is vs
         else if - n \<le> i \<and> i < 0 then store_rows (Y[nat (n + i) := v]) is vs
         else Inl IndexError)"

definition set_rows :: "'a list list \<Rightarrow> int list \<Rightarrow> 'a list list \<Rightarrow> error + 'a list list" where
  "set_rows Y idx V = bind_e (broadcast_to (length idx) (ncols Y) V) (store_rows Y idx)"

text \<open>\<open>_column_convolve(X[xe[idx],:], h)\<close>: filter the rows of \<open>X\<close> picked through \<open>xe\<close>.\<close>

definition filt_rows :: "matrix \<Rightarrow> int list \<Rightarrow> int list \<Rightarrow> real list \<Rightarrow> error + matrix" where
  "filt_rows X xe idx h =
     bind_e (fancy xe idx) (\<lambda>rows. bind_e (fancy X rows) (\<lambda>Xe. column_convolve Xe h))"

text \<open>\<open>_column_convolve(X[xe[ia],:], ha) + _column_convolve(X[xe[ib],:], hb)\<close>\<close>

definition filt_pair ::
  "matrix \<Rightarrow> int list \<Rightarrow> int list \<Rightarrow> real list \<Rightarrow> int list \<Rightarrow> real list \<Rightarrow> error + matrix" where
  "filt_pair X xe ia ha ib hb =
     bind_e (filt_rows X xe ia ha) (\<lambda>A. bind_e (filt_rows X xe ib hb) (\<lambda>B. np_binop (+) A B))"

text \<open>
  The body of \<open>coldfilt\<close> after its three checks, given the reflected index array.
  \<open>ha[0:m:2]\<close> and \<open>ha[1:m:2]\<close> are the two polyphase halves of a filter;
  \<open>r2 = r/2\<close> is integer division.
\<close>

definition coldfilt_body :: "matrix \<Rightarrow> real list \<Rightarrow> real list \<Rightarrow> int list \<Rightarrow> error + matrix" where
  "coldfilt_body X ha hb xe =
     (let r = int (nrows X); c = ncols X; m = int (length ha);
          hao = slice_from 0 ha; hae = slice_from 1 ha;
          hbo = slice_from 0 hb; hbe = slice_from 1 hb;
          t = arange 5 (r + 2 * m - 2) 4;
          r2 = r div 2;
          Y = zeros (nat r2) c;
          (s1, s2) = (if sum_list (map2 (*) ha hb) > 0
                      then (arange 0 r2 2, map (\<lambda>i. i + 1) (arange 0 r2 2))
                      else (map (\<lambda>i. i + 1) (arange 0 r2 2), arange 0 r2 2))
      in bind_e (filt_pair X xe (map (\<lambda>i. i - 1) t) hao (map (\<lambda>i. i - 3) t) hae) (\<lambda>V1.
         bind_e (set_rows Y s1 V1) (\<lambda>Y.
         bind_e (filt_pair X xe t hbo (map (\<lambda>i. i - 2) t) hbe) (\<lambda>V2.
         set_rows Y s2 V2))))"

definition coldfilt :: "matrix \<Rightarrow> real list \<Rightarrow> real list \<Rightarrow> (error + matrix) option" where
  "coldfilt X ha hb =
     (let r = int (nrows X)
      in if r mod 4 \<noteq> 0
         then Some (Inl (ValueError ''No. of rows in X must be a multiple of 4''))
         else if length ha \<noteq> length hb
         then Some (Inl (ValueError ''Shapes of ha and hb must be the same''))
         else if length ha mod 2 \<noteq> 0
         then Some (Inl (ValueError ''Lengths of ha and hb must be even''))
         else let m = int (length ha)
              in case reflect (arange (- m) (r + m) 1) (- 1 / 2) (real_of_int r - 1 / 2) of
                   None \<Rightarrow> None
                 | Some xe \<Rightarrow> Some (coldfilt_body X ha hb xe))"

text \<open>
  \<open>np.nonzero(X[:])[0]\<close>: the row index of every non-zero entry, in row-major order;
  \<open>np.any\<close> of an integer array holds when some element is not \<open>0\<close>.
\<close>

definition nonzero_rows :: "matrix \<Rightarrow> nat list" where
  "nonzero_rows X = concat (map (\<lambda>i. map (\<lambda>_. i) (filter (\<lambda>v. v \<noteq> 0) (X ! i))) [0..<length X])"

definition np_any :: "nat list \<Rightarrow> bool" where
  "np_any xs = list_ex (\<lambda>v. v \<noteq> 0) xs"

text \<open>The general path of \<open>colifilt\<close>: everything after the test for a zero input.\<close>

definition colifilt_body :: "matrix \<Rightarrow> real list \<Rightarrow> real list \<Rightarrow> matrix \<Rightarrow> int list \<Rightarrow> error + matrix" where
  "colifilt_body X ha hb Y xe =
     (let r = int (nrows X); m = int (length ha); m2 = m div 2;
          hao = slice_from 0 ha; hae = slice_from 1 ha;
          hbo = slice_from 0 hb; hbe = slice_from 1 hb;
          s = arange 0 (r * 2) 4
      in if m2 mod 2 = 0
         then (let t = arange 3 (r + m) 2;
                   (ta, tb) = (if sum_list (map2 (*) ha hb) > 0
                               then (t, map (\<lambda>i. i - 1) t) else (map (\<lambda>i. i - 1) t, t))
               in bind_e (filt_rows X xe (map (\<lambda>i. i - 2) tb) hae) (\<lambda>V0.
                  bind_e (set_rows Y s V0) (\<lambda>Y.
                  bind_e (filt_rows X xe (map (\<lambda>i. i - 2) ta) hbe) (\<lambda>V1.
                  bind_e (set_rows Y (map (\<lambda>i. i + 1) s) V1) (\<lambda>Y.
                  bind_e (filt_rows X xe tb hao) (\<lambda>V2.
                  bind_e (set_rows Y (map (\<lambda>i. i + 2) s) V2) (\<lambda>Y.
                  bind_e (filt_rows X xe ta hbo) (\<lambda>V3.
                  set_rows Y (map (\<lambda>i. i + 3) s) V3))))))))
         else (let t = arange 2 (r + m - 1) 2;
                   (ta, tb) = (if sum_list (map2 (*) ha hb) > 0
                               then (t, map (\<lambda>i. i - 1) t) else (map (\<lambda>i. i - 1) t, t))
               in bind_e (filt_rows X xe tb hao) (\<lambda>V0.
                  bind_e (set_rows Y s V0) (\<lambda>Y.
                  bind_e (filt_rows X xe ta hbo) (\<lambda>V1.
                  bind_e (set_rows Y (map (\<lambda>i. i + 1) s) V1) (\<lambda>Y.
                  bind_e (filt_rows X xe tb hae) (\<lambda>V2.
                  bind_e (set_rows Y (map (\<lambda>i. i + 2) s) V2) (\<lambda>Y.
                  bind_e (filt_rows X xe ta hbe) (\<lambda>V3.
                  set_rows Y (map (\<lambda>i. i + 3) s) V3)))))))))"

definition colifilt_general :: "matrix \<Rightarrow> real list \<Rightarrow> real list \<Rightarrow> matrix \<Rightarrow> (error + matrix) option" where
  "colifilt_general X ha hb Y =
     (let r = int (nrows X); m = int (length ha); m2 = m div 2
      in case reflect (arange (- m2) (r + m2) 1) (- 1 / 2) (real_of_int r - 1 / 2) of
           None \<Rightarrow> None
         | Some xe \<Rightarrow> Some (colifilt_body X ha hb Y xe))"

definition colifilt :: "matrix \<Rightarrow> real list \<Rightarrow> real list \<Rightarrow> (error + matrix) option" where
  "colifilt X ha hb =
     (let r = nrows X; c = ncols X
      in if r mod 2 \<noteq> 0
         then Some (Inl (ValueError ''No. of rows in X must be a multiple of 2''))
         else if length ha \<noteq> length hb
         then Some (Inl (ValueError ''Shapes of ha and hb must be the same''))
         else if length ha mod 2 \<noteq> 0
         then Some (Inl (ValueError ''Lengths of ha and hb must be even''))
         else let Y = zeros (r * 2) c
              in if \<not> np_any (nonzero_rows X) then Some (Inr Y)
                 else colifilt_general X ha hb Y)"

section \<open>The quad-to-complex packer (transform2d.py, \<open>q2c\<close>, \<open>c2q\<close>)\<close>

type_synonym cmatrix = "complex list list"

text \<open>A 3-D array \<open>[row, column, band]\<close>: the rows of a matrix whose cells are band lists.\<close>

type_synonym tensor = "complex list list list"

text \<open>\<open>y[ro::2, co::2]\<close>\<close>

definition slice2 :: "nat \<Rightarrow> nat \<Rightarrow> 'a list list \<Rightarrow> 'a list list" where
  "slice2 ro co y = map (slice_from co) (slice_from ro y)"

text \<open>\<open>j2 = np.sqrt(0.5) * np.array([1, 1j])\<close>\<close>

definition j2 :: "complex list" where
  "j2 = map (\<lambda>u. complex_of_real (sqrt (1 / 2)) * u) [1, \<i>]"

text \<open>A real array times a complex scalar, and a complex array times a real scalar.\<close>

definition rc_scale :: "matrix \<Rightarrow> complex \<Rightarrow> cmatrix" where
  "rc_scale A u = map (map (\<lambda>v. complex_of_real v * u)) A"

definition cr_scale :: "cmatrix \<Rightarrow> real \<Rightarrow> cmatrix" where
  "cr_scale A s = map (map (\<lambda>v. v * complex_of_real s)) A"

text \<open>\<open>np.dstack((A, B))\<close> of two arrays of one shape: the cells are the pairs.\<close>

definition dstack2 :: "cmatrix \<Rightarrow> cmatrix \<Rightarrow> tensor" where
  "dstack2 A B = map2 (map2 (\<lambda>a b. [a, b])) A B"

definition q2c :: "matrix \<Rightarrow> error + tensor" where
  "q2c y =
     bind_e (index1 j2 0) (\<lambda>j20. bind_e (index1 j2 1) (\<lambda>j21.
     bind_e (np_binop (+) (rc_scale (slice2 0 0 y) j20) (rc_scale (slice2 0 1 y) j21)) (\<lambda>p.
     bind_e (np_binop (-) (rc_scale (slice2 1 1 y) j20) (rc_scale (slice2 1 0 y) j21)) (\<lambda>q.
     bind_e (np_binop (-) p q) (\<lambda>d.
     bind_e (np_binop (+) p q) (\<lambda>s.
     Inr (dstack2 d s)))))))"

text \<open>\<open>w[:,:,k]\<close>: band \<open>k\<close> of every cell; a band that is not there raises.\<close>

definition plane :: "nat \<Rightarrow> 'a list list list \<Rightarrow> error + 'a list list" where
  "plane k w =
     (if list_all (list_all (\<lambda>cell. k < length cell)) w
      then Inr (map (map (\<lambda>cell. cell ! k)) w) else Inl IndexError)"

text \<open>
  \<open>x[ro::2, co::2] = V\<close> for \<open>ro, co\<close> in \<open>{0, 1}\<close>: the value is broadcast to the shape of
  the slice and stored at the rows and columns of that parity.
\<close>

definition set_slice2 :: "nat \<Rightarrow> nat \<Rightarrow> 'a list list \<Rightarrow> 'a list list \<Rightarrow> error + 'a list list" where
  "set_slice2 ro co x V =
     bind_e (broadcast_to (nrows (slice2 ro co x)) (ncols (slice2 ro co x)) V) (\<lambda>V'.
       Inr (map (\<lambda>i. if i mod 2 = ro
                       then map (\<lambda>j. if j mod 2 = co then V' ! (i div 2) ! (j div 2) else x ! i ! j)
                              [0..<length (x ! i)]
                       else x ! i) [0..<length x]))"

definition c2q :: "tensor \<Rightarrow> real list \<Rightarrow> error + matrix" where
  "c2q w gain =
     (let x = zeros (nrows w * 2) (ncols w * 2);
          sc = map (\<lambda>g. sqrt (1 / 2) * g) gain
      in bind_e (plane 0 w) (\<lambda>w0. bind_e (index1 sc 0) (\<lambda>sc0.
         bind_e (plane 1 w) (\<lambda>w1. bind_e (index1 sc 1) (\<lambda>sc1.
         bind_e (np_binop (+) (cr_scale w0 sc0) (cr_scale w1 sc1)) (\<lambda>P.
         bind_e (np_binop (-) (cr_scale w0 sc0) (cr_scale w1 sc1)) (\<lambda>Q.
         bind_e (set_slice2 0 0 x (map (map Re) P)) (\<lambda>x.
         bind_e (set_slice2 0 1 x (map (map Im) P)) (\<lambda>x.
         bind_e (set_slice2 1 0 x (map (map Im) Q)) (\<lambda>x.
         set_slice2 1 1 x (map (map (\<lambda>v. - Re v)) Q)))))))))))"


text \<open>The entries of the packed subband pair, from the four corners of each quad.\<close>

definition quad_p :: "matrix \<Rightarrow> nat \<Rightarrow> nat \<Rightarrow> complex" where
  "quad_p y i j = complex_of_real (y ! (2 * i) ! (2 * j)) * (complex_of_real (sqrt (1 / 2)) * 1)
                + complex_of_real (y ! (2 * i) ! (2 * j + 1)) * (complex_of_real (sqrt (1 / 2)) * \<i>)"

definition quad_q :: "matrix \<Rightarrow> nat \<Rightarrow> nat \<Rightarrow> complex" where
  "quad_q y i j = complex_of_real (y ! (2 * i + 1) ! (2 * j + 1)) * (complex_of_real (sqrt (1 / 2)) * 1)
                - complex_of_real (y ! (2 * i + 1) ! (2 * j)) * (complex_of_real (sqrt (1 / 2)) * \<i>)"

section \<open>The forward transform (transform2d.py, \<open>dtwavexfm2\<close>)\<close>

text \<open>
  A call either never returns (\<open>None\<close>), raises (\<open>Some (Inl e)\<close>) or returns
  (\<open>Some (Inr v)\<close>).
\<close>

type_synonym 'a result = "(error + 'a) option"

definition bind_r :: "'a result \<Rightarrow> ('a \<Rightarrow> 'b result) \<Rightarrow> 'b result" where
  "bind_r m f = (case m of None \<Rightarrow> None | Some (Inl e) \<Rightarrow> Some (Inl e) | Some (Inr v) \<Rightarrow> f v)"

text \<open>
  The filter sets, given as coefficient vectors: \<open>biort = (h0o, g0o, h1o, g1o)\<close> and
  \<open>qshift = (h0a, h0b, g0a, g0b, h1a, h1b, g1a, g1b)\<close>. A filter set given by name is
  loaded from a data file by \<open>coeffs.py\<close> and reaches the transform as such a tuple.
\<close>

record biort =
  h0o :: "real list"
  g0o :: "real list"
  h1o :: "real list"
  g1o :: "real list"

record qshift =
  h0a :: "real list"
  h0b :: "real list"
  g0a :: "real list"
  g0b :: "real list"
  h1a :: "real list"
  h1b :: "real list"
  g1a :: "real list"
  g1b :: "real list"

text \<open>\<open>X.T\<close>\<close>

definition transp :: "'a list list \<Rightarrow> 'a list list" where
  "transp X = map (\<lambda>j. map (\<lambda>row. row ! j) X) [0..<ncols X]"

text \<open>\<open>X[:, k]\<close> for an integer \<open>k\<close>\<close>

definition column :: "matrix \<Rightarrow> int \<Rightarrow> error + real list" where
  "column X k =
     (let c = int (ncols X)
      in if 0 \<le> k \<and> k < c then Inr (map (\<lambda>row. row ! nat k) X)
         else if - c \<le> k \<and> k < 0 then Inr (map (\<lambda>row. row ! nat (c + k)) X)
         else Inl IndexError)"

text \<open>
  \<open>np.vstack\<close> of 1-D rows and a matrix, and \<open>np.hstack\<close> of a matrix with columns
  \<open>np.atleast_2d(col).T\<close>; the operands here always agree in the other dimension.
\<close>

definition hstack_right :: "matrix \<Rightarrow> real list \<Rightarrow> matrix" where
  "hstack_right X col = map2 (\<lambda>row v. row @ [v]) X col"

definition hstack_both :: "real list \<Rightarrow> matrix \<Rightarrow> real list \<Rightarrow> matrix" where
  "hstack_both col0 X col1 = map2 (\<lambda>v0 (row, v1). v0 # row @ [v1]) col0 (zip X col1)"

text \<open>The first lines of \<open>dtwavexfm2\<close>: an odd dimension is made even by repeating the last
  row or column.\<close>

definition extend_even :: "matrix \<Rightarrow> error + matrix" where
  "extend_even X =
     bind_e (if nrows X mod 2 \<noteq> 0 then bind_e (index1 X (- 1)) (\<lambda>row. Inr (X @ [row])) else Inr X)
       (\<lambda>X1. if ncols X mod 2 \<noteq> 0
             then bind_e (column X1 (- 1)) (\<lambda>col. Inr (hstack_right X1 col)) else Inr X1)"

text \<open>\<open>np.zeros((H, W, B))\<close> and the shape of a 3-D array.\<close>

definition tzeros :: "nat \<Rightarrow> nat \<Rightarrow> nat \<Rightarrow> tensor" where
  "tzeros H W B = replicate H (replicate W (replicate B 0))"

definition tshaped :: "nat \<Rightarrow> nat \<Rightarrow> nat \<Rightarrow> 'a list list list \<Rightarrow> bool" where
  "tshaped H W B T = (shaped H W T \<and> (\<forall>row\<in>set T. \<forall>cell\<in>set row. length cell = B))"

text \<open>
  \<open>T[:,:,[b0, b1]] = z\<close>: the two planes of \<open>z\<close> are broadcast to the rows and columns of
  \<open>T\<close> and stored as its bands \<open>b0\<close> and \<open>b1\<close>.
\<close>

definition set_bands :: "nat \<Rightarrow> nat \<Rightarrow> tensor \<Rightarrow> tensor \<Rightarrow> error + tensor" where
  "set_bands b0 b1 T z =
     bind_e (broadcast_to (nrows T) (ncols T) z) (\<lambda>z'.
       Inr (map2 (map2 (\<lambda>cell zc. cell[b0 := zc ! 0, b1 := zc ! 1])) T z'))"

text \<open>
  One oriented pair of subbands: filter, transpose, pack and store. \<open>filt\<close> is the column
  filter of the level with its filters.
\<close>

definition subband_pair ::
  "(matrix \<Rightarrow> matrix result) \<Rightarrow> matrix \<Rightarrow> nat \<Rightarrow> nat \<Rightarrow> tensor \<Rightarrow> tensor result" where
  "subband_pair filt A b0 b1 T =
     bind_r (filt A) (\<lambda>F. bind_r (Some (q2c (transp F))) (\<lambda>z. Some (set_bands b0 b1 T z)))"

text \<open>
  Level 1 (\<open>if nlevels >= 1\<close>): the odd filters on columns, then on rows. Returns \<open>LoLo\<close>
  and the subband array \<open>Yh[0]\<close>. \<open>LoLo.shape[0]/2\<close> is integer division.
\<close>

definition level1 :: "biort \<Rightarrow> matrix \<Rightarrow> (matrix \<times> tensor) result" where
  "level1 bi X =
     bind_r (colfilter X (h0o bi)) (\<lambda>L. let Lo = transp L in
     bind_r (colfilter X (h1o bi)) (\<lambda>H. let Hi = transp H in
     bind_r (colfilter Lo (h0o bi)) (\<lambda>LL. let LoLo = transp LL;
         Yh0 = tzeros (nrows LoLo div 2) (ncols LoLo div 2) 6 in
     bind_r (subband_pair (\<lambda>A. colfilter A (h0o bi)) Hi 0 5 Yh0) (\<lambda>Yh0.
     bind_r (subband_pair (\<lambda>A. colfilter A (h1o bi)) Lo 2 3 Yh0) (\<lambda>Yh0.
     bind_r (subband_pair (\<lambda>A. colfilter A (h1o bi)) Hi 1 4 Yh0) (\<lambda>Yh0.
     Some (Inr (LoLo, Yh0))))))))"

text \<open>
  The start of the loop body for a level \<open>\<ge> 2\<close>: \<open>LoLo\<close> is extended by its first and last
  row (column) when its row (column) count is not a multiple of 4. Both counts are read
  before either extension.
\<close>

definition extend4 :: "matrix \<Rightarrow> error + matrix" where
  "extend4 LoLo =
     (let row_size = nrows LoLo; col_size = ncols LoLo
      in bind_e (if row_size mod 4 \<noteq> 0
                 then bind_e (index1 LoLo 0) (\<lambda>r0. bind_e (index1 LoLo (- 1)) (\<lambda>r1.
                        Inr ([r0] @ LoLo @ [r1])))
                 else Inr LoLo)
           (\<lambda>L1. if col_size mod 4 \<noteq> 0
                 then bind_e (column L1 0) (\<lambda>c0. bind_e (column L1 (- 1)) (\<lambda>c1.
                        Inr (hstack_both c0 L1 c1)))
                 else Inr L1))"

text \<open>The rest of the loop body: the even filters on the extended \<open>LoLo\<close>. Returns the new
  \<open>LoLo\<close> and the subband array \<open>Yh[level]\<close>.\<close>

definition level_filters :: "qshift \<Rightarrow> matrix \<Rightarrow> (matrix \<times> tensor) result" where
  "level_filters qs LoLo =
     bind_r (coldfilt LoLo (h0b qs) (h0a qs)) (\<lambda>L. let Lo = transp L in
     bind_r (coldfilt LoLo (h1b qs) (h1a qs)) (\<lambda>H. let Hi = transp H in
     bind_r (coldfilt Lo (h0b qs) (h0a qs)) (\<lambda>LL. let LoLo = transp LL;
         Yhl = tzeros (nrows LoLo div 2) (ncols LoLo div 2) 6 in
     bind_r (subband_pair (\<lambda>A. coldfilt A (h0b qs) (h0a qs)) Hi 0 5 Yhl) (\<lambda>Yhl.
     bind_r (subband_pair (\<lambda>A. coldfilt A (h1b qs) (h1a qs)) Lo 2 3 Yhl) (\<lambda>Yhl.
     bind_r (subband_pair (\<lambda>A. coldfilt A (h1b qs) (h1a qs)) Hi 1 4 Yhl) (\<lambda>Yhl.
     Some (Inr (LoLo, Yhl))))))))"

definition level_step :: "qshift \<Rightarrow> matrix \<Rightarrow> (matrix \<times> tensor) result" where
  "level_step qs LoLo = bind_r (Some (extend4 LoLo)) (level_filters qs)"

text \<open>
  The state of the loop \<open>for level in xrange(1, nlevels)\<close>: \<open>LoLo\<close>, the list \<open>Yh\<close> and the
  list \<open>Yscale\<close>, both created as \<open>[None,] * nlevels\<close>. The loop stores the subbands in slot
  \<open>level\<close> and, when \<open>include_scale\<close> is set, the new \<open>LoLo\<close> in slot \<open>0\<close> of \<open>Yscale\<close>
  (\<open>Yscale[0] = LoLo\<close>).
\<close>

fun level_loop ::
  "qshift \<Rightarrow> bool \<Rightarrow> nat list \<Rightarrow> matrix \<times> tensor option list \<times> matrix option list \<Rightarrow>
   (matrix \<times> tensor option list \<times> matrix option list) result" where
  "level_loop qs include_scale [] st = Some (Inr st)"
| "level_loop qs include_scale (level # levels) (LoLo, Yh, Yscale) =
     bind_r (level_step qs LoLo) (\<lambda>(LoLo', Yhl).
       level_loop qs include_scale levels
         (LoLo', Yh[level := Some Yhl],
          if include_scale then Yscale[0 := Some LoLo'] else Yscale))"

text \<open>
  What \<open>dtwavexfm2\<close> returns: \<open>(Yl, Yh)\<close>, and \<open>Yscale\<close> when \<open>include_scale\<close> is set. The two
  flags record the extension of an odd input, which the source only reports through
  \<open>logging.warn\<close>.
\<close>

record xfm_result =
  Yl :: matrix
  Yh :: "tensor option list"
  Yscale :: "matrix option list option"
  row_extended :: bool
  col_extended :: bool

definition dtwavexfm2 :: "matrix \<Rightarrow> int \<Rightarrow> biort \<Rightarrow> qshift \<Rightarrow> bool \<Rightarrow> xfm_result result" where
  "dtwavexfm2 X0 nlevels bi qs include_scale =
     bind_r (Some (extend_even X0)) (\<lambda>X.
       let re = (nrows X0 mod 2 \<noteq> 0); ce = (ncols X0 mod 2 \<noteq> 0)
       in if nlevels = 0
          then Some (Inr \<lparr>Yl = X, Yh = [], Yscale = (if include_scale then Some [] else None),
                           row_extended = re, col_extended = ce\<rparr>)
          else if nlevels < 0 then Some (Inl UnboundLocalError)
          else bind_r (level1 bi X) (\<lambda>(LoLo, Yh0).
                 let Yh = (replicate (nat nlevels) None)[0 := Some Yh0];
                     Yscale = (if include_scale then (replicate (nat nlevels) None)[0 := Some LoLo]
                               else replicate (nat nlevels) None)
                 in bind_r (level_loop qs include_scale [1..<nat nlevels] (LoLo, Yh, Yscale))
                      (\<lambda>(LoLo, Yh, Yscale).
                         Some (Inr \<lparr>Yl = LoLo, Yh = Yh,
                                    Yscale = (if include_scale then Some Yscale else None),
                                    row_extended = re, col_extended = ce\<rparr>))))"

text \<open>
  The row or column count after the extension to a multiple of 4, and the conditions the
  decimating filter puts on the level filters: each pair non-empty, of equal and even
  length.
\<close>

definition pad4 :: "nat \<Rightarrow> nat" where
  "pad4 n = (if n mod 4 \<noteq> 0 then n + 2 else n)"

definition qshift_even :: "qshift \<Rightarrow> bool" where
  "qshift_even qs =
     (h0a qs \<noteq> [] \<and> length (h0a qs) = length (h0b qs) \<and> even (length (h0a qs)) \<and>
      h1a qs \<noteq> [] \<and> length (h1a qs) = length (h1b qs) \<and> even (length (h1a qs)))"

text \<open>
  The row (or column) count of the lowpass image \<open>LoLo\<close> after level \<open>k + 1\<close>, from the
  count \<open>s\<close> of the extended input image: level 1 keeps the count, every later level
  extends it to a multiple of 4 and halves it.
\<close>

primrec lolo_dim :: "nat \<Rightarrow> nat \<Rightarrow> nat" where
  "lolo_dim s 0 = s"
| "lolo_dim s (Suc k) = pad4 (lolo_dim s k) div 2"

text \<open>
  The shape of the subband array of level \<open>l + 1\<close> (slot \<open>l\<close> of \<open>Yh\<close>) along one axis, from
  the count \<open>s\<close> of the extended input image along that axis: at level 1 half of \<open>s\<close>; at a
  level \<open>\<ge> 2\<close> a quarter of the count of the lowpass image entering the level once it is
  extended to a multiple of 4.
\<close>

definition subband_dim :: "nat \<Rightarrow> nat \<Rightarrow> nat" where
  "subband_dim s l = (if l = 0 then s div 2 else pad4 (lolo_dim s (l - 1)) div 4)"

section \<open>Properties of the boundary reflector\<close>

lemma trunc_of_int [simp]: "trunc (real_of_int k) = k"
  by (simp add: trunc_def)

lemma half_integral_reflect:
  assumes "half_integral b"
  shows "real_of_int (trunc (2 * b - real_of_int v)) = 2 * b - real_of_int v"
proof -
  from assms have "2 * b - real_of_int v = real_of_int (\<lfloor>2 * b\<rfloor> - v)"
    by (simp add: half_integral_def)
  then show ?thesis
    by (metis trunc_of_int)
qed

lemma reflect_pass: "reflect_max maxx (reflect_min minx y) = map (pass1 minx maxx) y"
  by (simp add: reflect_max_def reflect_min_def pass1_def Let_def)

lemma pass1_in_range:
  "minx \<le> real_of_int v \<Longrightarrow> real_of_int v \<le> maxx \<Longrightarrow> pass1 minx maxx v = v"
  by (simp add: pass1_def)

lemma pass1_below:
  assumes hi: "half_integral minx" "half_integral maxx" and lt: "minx < maxx"
    and v: "real_of_int v < minx"
  shows "v < pass1 minx maxx v \<and> real_of_int (pass1 minx maxx v) \<le> maxx"
proof -
  let ?w = "trunc (2 * minx - real_of_int v)"
  have w: "real_of_int ?w = 2 * minx - real_of_int v"
    by (rule half_integral_reflect [OF hi(1)])
  show ?thesis
  proof (cases "real_of_int ?w > maxx")
    case True
    then have p: "pass1 minx maxx v = trunc (2 * maxx - real_of_int ?w)"
      using v by (simp add: pass1_def)
    have "real_of_int (pass1 minx maxx v) = 2 * maxx - real_of_int ?w"
      unfolding p by (rule half_integral_reflect [OF hi(2)])
    with w True lt have "real_of_int v < real_of_int (pass1 minx maxx v)"
      and "real_of_int (pass1 minx maxx v) \<le> maxx"
      by linarith+
    then show ?thesis by simp
  next
    case False
    then have p: "pass1 minx maxx v = ?w"
      using v by (simp add: pass1_def)
    from w v have "real_of_int v < real_of_int ?w" by linarith
    with False p show ?thesis by simp
  qed
qed

lemma deficit_pos: "real_of_int v < minx \<Longrightarrow> 0 < deficit minx v"
  unfolding deficit_def by (simp add: less_ceiling_iff)

lemma deficit_zero: "minx \<le> real_of_int v \<Longrightarrow> deficit minx v = 0"
  unfolding deficit_def by (simp add: ceiling_le_iff)

lemma deficit_mono: "v < w \<Longrightarrow> 0 < deficit minx v \<Longrightarrow> deficit minx w < deficit minx v"
  unfolding deficit_def by simp

lemma sum_list_decrease:
  fixes f :: "'a \<Rightarrow> nat"
  assumes "\<forall>v\<in>set y. f (g v) \<le> f v" and "\<exists>v\<in>set y. f (g v) < f v"
  shows "sum_list (map f (map g y)) < sum_list (map f y)"
  using assms
proof (induction y)
  case Nil
  then show ?case by simp
next
  case (Cons a y)
  have le: "sum_list (map f (map g y)) \<le> sum_list (map f y)"
    using Cons.prems(1) by (induction y) (auto intro: add_mono)
  show ?case
  proof (cases "f (g a) < f a")
    case True
    with le show ?thesis by simp
  next
    case False
    with Cons.prems have "\<exists>v\<in>set y. f (g v) < f v" and "f (g a) \<le> f a" by auto
    with Cons show ?thesis by simp
  qed
qed

lemma reflect_loop_total:
  assumes hi: "half_integral minx" "half_integral maxx" and lt: "minx < maxx"
  shows "\<forall>v\<in>set y. real_of_int v \<le> maxx \<Longrightarrow>
    \<exists>z. reflect_loop minx maxx y = Some z \<and> length z = length y \<and>
      (\<forall>i<length y. minx \<le> real_of_int (z ! i) \<and> real_of_int (z ! i) \<le> maxx \<and>
         (minx \<le> real_of_int (y ! i) \<longrightarrow> z ! i = y ! i))"
proof (induction "sum_list (map (deficit minx) y)" arbitrary: y rule: less_induct)
  case less
  show ?case
  proof (cases "list_ex (\<lambda>v. real_of_int v < minx) y")
    case False
    then have "reflect_loop minx maxx y = Some y"
      by (subst reflect_loop.simps) simp
    moreover from False less.prems
    have "\<forall>i<length y. minx \<le> real_of_int (y ! i) \<and> real_of_int (y ! i) \<le> maxx"
      by (auto simp: list_ex_iff not_less)
    ultimately show ?thesis by simp
  next
    case True
    let ?y' = "map (pass1 minx maxx) y"
    have step: "reflect_loop minx maxx y = reflect_loop minx maxx ?y'"
      using True by (subst reflect_loop.simps) (simp add: reflect_pass)
    have each: "real_of_int (pass1 minx maxx v) \<le> maxx \<and>
        deficit minx (pass1 minx maxx v) \<le> deficit minx v \<and>
        (real_of_int v < minx \<longrightarrow> deficit minx (pass1 minx maxx v) < deficit minx v) \<and>
        (minx \<le> real_of_int v \<longrightarrow> pass1 minx maxx v = v)"
      if "v \<in> set y" for v
    proof (cases "real_of_int v < minx")
      case True
      from pass1_below [OF hi lt True] deficit_pos [OF True] deficit_mono
      show ?thesis using True by (simp add: less_imp_le)
    next
      case False
      with that less.prems have "pass1 minx maxx v = v"
        by (simp add: pass1_in_range)
      with False that less.prems show ?thesis by simp
    qed
    have "sum_list (map (deficit minx) ?y') < sum_list (map (deficit minx) y)"
    proof (rule sum_list_decrease)
      show "\<forall>v\<in>set y. deficit minx (pass1 minx maxx v) \<le> deficit minx v"
        using each by blast
      from True obtain v where "v \<in> set y" "real_of_int v < minx"
        by (auto simp: list_ex_iff)
      with each show "\<exists>v\<in>set y. deficit minx (pass1 minx maxx v) < deficit minx v"
        by blast
    qed
    moreover have "\<forall>v\<in>set ?y'. real_of_int v \<le> maxx"
      using each by auto
    ultimately obtain z where z: "reflect_loop minx maxx ?y' = Some z" "length z = length ?y'"
      "\<forall>i<length ?y'. minx \<le> real_of_int (z ! i) \<and> real_of_int (z ! i) \<le> maxx \<and>
         (minx \<le> real_of_int (?y' ! i) \<longrightarrow> z ! i = ?y' ! i)"
      using less.hyps [of ?y'] by blast
    have "minx \<le> real_of_int (y ! i) \<longrightarrow> z ! i = y ! i" if "i < length y" for i
    proof
      assume a: "minx \<le> real_of_int (y ! i)"
      from that have "y ! i \<in> set y" by simp
      with each a have "pass1 minx maxx (y ! i) = y ! i" by blast
      with z(3) that a show "z ! i = y ! i" by simp
    qed
    with z step show ?thesis by simp
  qed
qed

lemma reflect_max_le:
  assumes "half_integral maxx"
  shows "\<forall>v\<in>set (reflect_max maxx x). real_of_int v \<le> maxx"
proof -
  have "real_of_int (trunc (2 * maxx - real_of_int v)) \<le> maxx" if "real_of_int v > maxx" for v
    using half_integral_reflect [OF assms, of v] that by linarith
  then show ?thesis by (auto simp: reflect_max_def not_less)
qed

lemma reflect_total:
  assumes hi: "half_integral minx" "half_integral maxx" and lt: "minx < maxx"
  shows "\<exists>z. reflect x minx maxx = Some z \<and> length z = length x \<and>
      (\<forall>i<length x. minx \<le> real_of_int (z ! i) \<and> real_of_int (z ! i) \<le> maxx \<and>
         (minx \<le> real_of_int (x ! i) \<and> real_of_int (x ! i) \<le> maxx \<longrightarrow> z ! i = x ! i))"
proof -
  let ?y = "reflect_max maxx x"
  from reflect_loop_total [OF hi lt reflect_max_le [OF hi(2)], of x]
  obtain z where z: "reflect_loop minx maxx ?y = Some z" "length z = length ?y"
    "\<forall>i<length ?y. minx \<le> real_of_int (z ! i) \<and> real_of_int (z ! i) \<le> maxx \<and>
         (minx \<le> real_of_int (?y ! i) \<longrightarrow> z ! i = ?y ! i)"
    by blast
  have len: "length ?y = length x" by (simp add: reflect_max_def)
  have "z ! i = x ! i" if "i < length x" "minx \<le> real_of_int (x ! i)" "real_of_int (x ! i) \<le> maxx" for i
  proof -
    from that have "?y ! i = x ! i" by (simp add: reflect_max_def)
    with z(3) that len show ?thesis by simp
  qed
  with z len show ?thesis by (simp add: reflect_def)
qed

text \<open>
  Magnitudes under \<open>exact_range\<close>, with \<open>B = 2^50\<close>: the first reflection in \<open>maxx\<close> leaves
  every element in \<open>[-3B, maxx]\<close>; a pass of the loop keeps it there, and the value it
  computes on the way, \<open>2*minx - v\<close>, has magnitude at most \<open>5B < 2^53\<close>. Every operand
  and result is an integer below \<open>2^53\<close> in magnitude, which 64-bit floating point and
  64-bit integers hold exactly.
\<close>

lemma reflect_max_magnitude:
  assumes "half_integral maxx" and "\<bar>maxx\<bar> \<le> B" and "\<bar>real_of_int v\<bar> \<le> B"
    and "w \<in> set (reflect_max maxx [v])"
  shows "- 3 * B \<le> real_of_int w \<and> real_of_int w \<le> maxx"
proof (cases "real_of_int v > maxx")
  case True
  with assms(4) have "w = trunc (2 * maxx - real_of_int v)" by (simp add: reflect_max_def)
  then have "real_of_int w = 2 * maxx - real_of_int v"
    using half_integral_reflect [OF assms(1), of v] by simp
  with True assms(2,3) show ?thesis by (simp add: abs_le_iff)
next
  case False
  with assms(4) have "w = v" by (simp add: reflect_max_def)
  with False assms(2,3) show ?thesis by (simp add: abs_le_iff)
qed

lemma pass1_magnitude:
  assumes hi: "half_integral minx" "half_integral maxx" and lt: "minx < maxx"
    and b: "\<bar>minx\<bar> \<le> B" "\<bar>maxx\<bar> \<le> B"
    and v: "- 3 * B \<le> real_of_int v" "real_of_int v \<le> maxx"
  shows "- 3 * B \<le> real_of_int (pass1 minx maxx v) \<and> real_of_int (pass1 minx maxx v) \<le> maxx \<and>
         \<bar>2 * minx - real_of_int v\<bar> \<le> 5 * B"
proof (cases "real_of_int v < minx")
  case True
  from pass1_below [OF hi lt True]
  have "v < pass1 minx maxx v" "real_of_int (pass1 minx maxx v) \<le> maxx" by simp_all
  then have "real_of_int v < real_of_int (pass1 minx maxx v)" by simp
  with v b True \<open>real_of_int (pass1 minx maxx v) \<le> maxx\<close> show ?thesis
    by (simp add: abs_le_iff)
next
  case False
  then have "pass1 minx maxx v = v" using v(2) by (simp add: pass1_in_range)
  with False v b show ?thesis by (simp add: abs_le_iff)
qed

section \<open>Shapes: index arrays, convolution and the symmetric filter\<close>

lemma shaped_nrows: "shaped r c X \<Longrightarrow> nrows X = r"
  by (simp add: shaped_def nrows_def)

lemma shaped_ncols: "shaped r c X \<Longrightarrow> 0 < r \<Longrightarrow> ncols X = c"
  by (cases X) (auto simp: shaped_def ncols_def)

lemma shaped_is_matrix: "shaped r c X \<Longrightarrow> is_matrix X"
  by (cases X) (auto simp: shaped_def is_matrix_def ncols_def list_all_iff)

lemma is_matrix_shaped: "is_matrix X \<Longrightarrow> shaped (nrows X) (ncols X) X"
  by (simp add: shaped_def is_matrix_def nrows_def list_all_iff)

lemma half_integral_minus_half: "half_integral (- 1 / 2)"
  by (simp add: half_integral_def)

lemma half_integral_int_minus_half: "half_integral (real_of_int r - 1 / 2)"
proof -
  have "2 * (real_of_int r - 1 / 2) = real_of_int (2 * r - 1)" by simp
  then show ?thesis unfolding half_integral_def by (metis floor_of_int)
qed

lemma length_arange1: "length (arange a b 1) = nat (b - a)"
  by (simp add: arange_def)

lemma nth_arange: "i < length (arange a b s) \<Longrightarrow> arange a b s ! i = a + s * int i"
  by (simp add: arange_def)

lemma length_arange: "0 < s \<Longrightarrow> length (arange a b s) = nat ((b - a + s - 1) div s)"
  by (simp add: arange_def)

lemma fancy_in_range:
  "\<forall>i\<in>set idx. 0 \<le> i \<and> i < int (length xs) \<Longrightarrow> fancy xs idx = Inr (map (\<lambda>i. xs ! nat i) idx)"
  by (induction idx) (simp_all add: bind_e_def index1_def)

text \<open>The rows of an image selected by the reflected index array.\<close>

lemma reflect_rows:
  assumes r: "0 < r" and len: "0 \<le> b - a"
  shows "\<exists>xe. reflect (arange a b 1) (- 1 / 2) (real_of_int r - 1 / 2) = Some xe \<and>
           length xe = nat (b - a) \<and> (\<forall>i\<in>set xe. 0 \<le> i \<and> i < r)"
proof -
  have lt: "(- 1 / 2 :: real) < real_of_int r - 1 / 2" using r by simp
  from reflect_total [OF half_integral_minus_half half_integral_int_minus_half lt, of "arange a b 1" ]
  obtain xe where xe: "reflect (arange a b 1) (- 1 / 2) (real_of_int r - 1 / 2) = Some xe"
    "length xe = length (arange a b 1)"
    "\<forall>i<length (arange a b 1). - 1 / 2 \<le> real_of_int (xe ! i) \<and> real_of_int (xe ! i) \<le> real_of_int r - 1 / 2"
    by blast
  have "0 \<le> v \<and> v < r" if "v \<in> set xe" for v
  proof -
    from that obtain i where "i < length xe" "xe ! i = v" by (auto simp: in_set_conv_nth)
    with xe(2,3) have "- 1 / 2 \<le> real_of_int v" "real_of_int v \<le> real_of_int r - 1 / 2"
      by auto
    then have "real_of_int (- 1) < real_of_int v" "real_of_int v < real_of_int r"
      by simp_all
    then have "- 1 < v" "v < r"
      by (simp_all only: of_int_less_iff)
    then show ?thesis by simp
  qed
  with xe(1,2) show ?thesis by (auto simp: length_arange1)
qed

lemma fancy_rows_shaped:
  assumes X: "shaped r c X" and idx: "\<forall>i\<in>set idx. 0 \<le> i \<and> i < int r"
  shows "\<exists>Xe. fancy X idx = Inr Xe \<and> shaped (length idx) c Xe"
proof -
  from X have len: "length X = r" by (simp add: shaped_def)
  with idx have "fancy X idx = Inr (map (\<lambda>i. X ! nat i) idx)"
    by (intro fancy_in_range) simp
  moreover have "shaped (length idx) c (map (\<lambda>i. X ! nat i) idx)"
    using X idx len by (auto simp: shaped_def)
  ultimately show ?thesis by blast
qed

lemma length_conv_row:
  assumes "shaped r c X" and "0 < r"
  shows "length (conv_row X h n) = c"
proof -
  have c: "ncols X = c" using assms by (rule shaped_ncols)
  have rows: "\<And>j. j < length X \<Longrightarrow> length (X ! j) = c"
    using assms(1) by (simp add: shaped_def)
  have "length (foldr (\<lambda>k acc. if k \<le> n \<and> n - k < length X
            then vadd (vscale (h ! k) (X ! (n - k))) acc else acc) ks (replicate c 0)) = c" for ks
    by (induction ks) (simp_all add: vadd_def vscale_def rows)
  then show ?thesis by (simp add: conv_row_def c)
qed

lemma length_centered:
  assumes "0 < k" and "k \<le> r" and "length arr = r + k - 1"
  shows "length (centered arr (r - k + 1)) = r - k + 1"
proof -
  have "(r + k - 1 - (r - k + 1)) div 2 = k - 1"
    using assms(1,2) by (simp add: algebra_simps)
  moreover have "min (r + k - 1 - (k - 1)) (r - k + 1) = r - k + 1"
    using assms(1,2) by linarith
  ultimately show ?thesis
    by (simp add: centered_def assms(3))
qed

lemma column_convolve_shaped:
  assumes X: "shaped r c X" and c: "0 < c" and h: "h \<noteq> []" and le: "length h \<le> r"
  shows "\<exists>Y. column_convolve X h = Inr Y \<and> shaped (r - length h + 1) c Y"
proof -
  from h le have r: "0 < r" by (cases h) auto
  from X have len: "length X = r" by (simp add: shaped_def)
  with r have ne: "X \<noteq> []" by auto
  have nc: "ncols X = c" using X r by (rule shaped_ncols)
  have m: "0 < length h" using h by simp
  have row: "length (conv_row X h n) = c" for n
    using X r by (rule length_conv_row)
  have "r - (length h - 1) = r - length h + 1" using m le by linarith
  then have v: "shaped (r - length h + 1) c (conv_valid X h)"
    by (auto simp: shaped_def conv_valid_def len row)
  have f: "shaped (r - length h + 1) c
      (centered (conv_full X h) (nat \<bar>int r - int (length h)\<bar> + 1))"
  proof -
    have n: "nat \<bar>int r - int (length h)\<bar> + 1 = r - length h + 1" using le by simp
    have l: "length (conv_full X h) = r + length h - 1"
      by (simp add: conv_full_def len)
    have "length (centered (conv_full X h) (r - length h + 1)) = r - length h + 1"
      using m le l by (rule length_centered)
    moreover have "\<forall>row\<in>set (centered (conv_full X h) (r - length h + 1)). length row = c"
      by (auto simp: centered_def conv_full_def row dest!: in_set_takeD in_set_dropD)
    ultimately show ?thesis
      unfolding n shaped_def by blast
  qed
  show ?thesis
    using v f h ne nc c le by (auto simp: column_convolve_def Let_def nrows_def len)
qed

lemma colfilter_shaped:
  assumes X: "shaped r c X" and r: "0 < r" and c: "0 < c" and h: "h \<noteq> []"
  shows "\<exists>Y. colfilter X h = Some (Inr Y) \<and>
           shaped (if odd (length h) then r else r + 1) c Y"
proof -
  let ?m = "int (length h)"
  let ?m2 = "?m div 2"
  from X have len: "length X = r" by (simp add: shaped_def)
  have "0 \<le> (int r + ?m2) - (- ?m2)" by simp
  from reflect_rows [OF _ this, of "int r"] r
  obtain xe where xe: "reflect (arange (- ?m2) (int r + ?m2) 1) (- 1 / 2) (real_of_int (int r) - 1 / 2) = Some xe"
    "length xe = nat ((int r + ?m2) - (- ?m2))" "\<forall>i\<in>set xe. 0 \<le> i \<and> i < int r"
    by auto
  from fancy_rows_shaped [OF X xe(3)]
  obtain Xe where Xe: "fancy X xe = Inr Xe" "shaped (length xe) c Xe" by blast
  have "int (length h) div 2 = int (length h div 2)" by (simp add: zdiv_int)
  then have lxe: "length xe = r + 2 * (length h div 2)"
    using xe(2) by simp
  have le: "length h \<le> length xe" using lxe r by presburger
  from column_convolve_shaped [OF Xe(2) c h le]
  obtain Y where Y: "column_convolve Xe h = Inr Y" "shaped (length xe - length h + 1) c Y"
    by blast
  have "length xe - length h + 1 = (if odd (length h) then r else r + 1)"
    using lxe r by presburger
  with Y xe(1) Xe(1) show ?thesis
    by (simp add: colfilter_def Let_def nrows_def len bind_e_def)
qed

section \<open>Shapes and zero inputs of the filter pairs\<close>

lemma length_stride2: "length (stride2 xs) = (length xs + 1) div 2"
  by (induction xs rule: stride2.induct) simp_all

lemma length_slice_from: "length (slice_from s xs) = (length xs - s + 1) div 2"
  by (simp add: slice_from_def length_stride2)

lemma length_slices_even:
  assumes "even (length h)"
  shows "length (slice_from 0 h) = length h div 2" and "length (slice_from 1 h) = length h div 2"
  using assms by (auto simp: length_slice_from elim!: evenE)

lemma fancy_index_array:
  assumes "\<forall>i\<in>set idx. 0 \<le> i \<and> i < int (length xe)" and "\<forall>v\<in>set xe. 0 \<le> v \<and> v < r"
  shows "\<exists>rows. fancy xe idx = Inr rows \<and> length rows = length idx \<and>
           (\<forall>v\<in>set rows. 0 \<le> v \<and> v < r)"
proof -
  from assms(1) have "fancy xe idx = Inr (map (\<lambda>i. xe ! nat i) idx)"
    by (rule fancy_in_range)
  moreover have "\<forall>v\<in>set (map (\<lambda>i. xe ! nat i) idx). 0 \<le> v \<and> v < r"
    using assms by (auto simp: nat_less_iff)
  ultimately show ?thesis by simp
qed

lemma filt_rows_shaped:
  assumes X: "shaped r c X" and c: "0 < c"
    and xe: "\<forall>v\<in>set xe. 0 \<le> v \<and> v < int r"
    and idx: "\<forall>i\<in>set idx. 0 \<le> i \<and> i < int (length xe)"
    and h: "h \<noteq> []" and le: "length h \<le> length idx"
  shows "\<exists>C. filt_rows X xe idx h = Inr C \<and> shaped (length idx - length h + 1) c C"
proof -
  from fancy_index_array [OF idx xe]
  obtain rows where rows: "fancy xe idx = Inr rows" "length rows = length idx"
    "\<forall>v\<in>set rows. 0 \<le> v \<and> v < int r" by blast
  from fancy_rows_shaped [OF X rows(3)]
  obtain Xe where Xe: "fancy X rows = Inr Xe" "shaped (length rows) c Xe" by blast
  from le rows(2) have "length h \<le> length rows" by simp
  from column_convolve_shaped [OF Xe(2) c h this]
  obtain C where "column_convolve Xe h = Inr C" "shaped (length rows - length h + 1) c C"
    by blast
  with rows Xe show ?thesis by (simp add: filt_rows_def bind_e_def)
qed

lemma broadcast_to_same: "shaped n c V \<Longrightarrow> broadcast_to n c V = Inr V"
  by (cases V) (auto simp: broadcast_to_def shaped_def nrows_def ncols_def intro!: map_idI)

lemma shaped_ncols_eq: "shaped n c A \<Longrightarrow> shaped n c B \<Longrightarrow> ncols A = ncols B"
  by (cases A; cases B) (auto simp: shaped_def ncols_def)

lemma np_binop_shaped:
  assumes A: "shaped n c A" and B: "shaped n c B"
  shows "\<exists>V. np_binop f A B = Inr V \<and> shaped n c V"
proof -
  have nr: "nrows A = n" "nrows B = n" using A B by (simp_all add: shaped_def nrows_def)
  have nc: "ncols A = ncols B" using A B by (rule shaped_ncols_eq)
  have c': "shaped n (ncols B) A \<and> shaped n (ncols B) B"
  proof (cases n)
    case 0
    with A B show ?thesis by (simp add: shaped_def)
  next
    case (Suc k)
    with A B have "ncols A = c" "ncols B = c" by (simp_all add: shaped_ncols)
    with A B show ?thesis by simp
  qed
  then have "np_binop f A B = Inr (map2 (map2 f) A B)"
    by (simp add: np_binop_def bdim_def nr nc broadcast_to_same bind_e_def)
  moreover have "shaped n c (map2 (map2 f) A B)"
  proof -
    have "length (map2 f a b) = c" if "(a, b) \<in> set (zip A B)" for a b
    proof -
      from that have "a \<in> set A" "b \<in> set B"
        by (auto dest: set_zip_leftD set_zip_rightD)
      with A B show ?thesis by (simp add: shaped_def)
    qed
    with A B show ?thesis by (auto simp: shaped_def)
  qed
  ultimately show ?thesis by blast
qed

lemma store_rows_shaped:
  "shaped R c Y \<Longrightarrow> \<forall>row\<in>set V. length row = c \<Longrightarrow> \<forall>i\<in>set idx. 0 \<le> i \<and> i < int R \<Longrightarrow>
     \<exists>Y'. store_rows Y idx V = Inr Y' \<and> shaped R c Y'"
proof (induction Y idx V rule: store_rows.induct)
  case (1 Y V)
  then show ?case by simp
next
  case (2 Y i "is")
  then show ?case by simp
next
  case (3 Y i "is" v vs)
  from "3.prems" have i: "0 \<le> i" "i < int (length Y)" and len: "length Y = R"
    by (simp_all add: shaped_def)
  have "shaped R c (Y[nat i := v])"
    using "3.prems"(1,2) by (auto simp: shaped_def dest!: set_update_subset_insert [THEN subsetD])
  from "3.IH"(1) [OF refl _ this] i "3.prems"(2,3)
  show ?case by simp
qed

lemma set_rows_shaped:
  assumes Y: "shaped R c Y" and R: "0 < R" and V: "shaped (length idx) c V"
    and idx: "\<forall>i\<in>set idx. 0 \<le> i \<and> i < int R"
  shows "\<exists>Y'. set_rows Y idx V = Inr Y' \<and> shaped R c Y'"
proof -
  have "ncols Y = c" using Y R by (rule shaped_ncols)
  moreover from V have "\<forall>row\<in>set V. length row = c" by (simp add: shaped_def)
  ultimately show ?thesis
    using store_rows_shaped [OF Y _ idx, of V] V
    by (simp add: set_rows_def broadcast_to_same bind_e_def)
qed


lemma arange_bounds:
  assumes s: "0 < s" and v: "v \<in> set (arange a b s)"
  shows "a \<le> v \<and> v < b \<and> (v - a) mod s = 0"
proof -
  from v obtain i where i: "i < nat ((b - a + s - 1) div s)" and veq: "v = a + s * int i"
    by (auto simp: arange_def)
  from i have "int i + 1 \<le> (b - a + s - 1) div s" by linarith
  then have "s * (int i + 1) \<le> s * ((b - a + s - 1) div s)"
    using s by (simp add: mult_left_mono)
  also have "\<dots> \<le> b - a + s - 1"
    using s pos_mod_sign [of s "b - a + s - 1"] mult_div_mod_eq [of s "b - a + s - 1"]
    by linarith
  finally have "s * int i < b - a" by (simp add: algebra_simps)
  with veq s show ?thesis by simp
qed

lemma filt_pair_shaped:
  assumes X: "shaped r c X" and c: "0 < c"
    and xe: "\<forall>v\<in>set xe. 0 \<le> v \<and> v < int r"
    and ia: "\<forall>i\<in>set ia. 0 \<le> i \<and> i < int (length xe)"
    and ib: "\<forall>i\<in>set ib. 0 \<le> i \<and> i < int (length xe)"
    and len: "length ia = n" "length ib = n"
    and h: "ha \<noteq> []" "length hb = length ha" "length ha \<le> n"
  shows "\<exists>V. filt_pair X xe ia ha ib hb = Inr V \<and> shaped (n - length ha + 1) c V"
proof -
  from h have hb: "hb \<noteq> []" by auto
  from filt_rows_shaped [OF X c xe ia h(1)] h(3) len(1)
  obtain A where A: "filt_rows X xe ia ha = Inr A" "shaped (n - length ha + 1) c A" by auto
  from filt_rows_shaped [OF X c xe ib hb] h(2,3) len(2)
  obtain B where B: "filt_rows X xe ib hb = Inr B" "shaped (n - length ha + 1) c B" by auto
  from np_binop_shaped [OF A(2) B(2)] A(1) B(1) show ?thesis
    by (simp add: filt_pair_def bind_e_def)
qed

lemma coldfilt_shaped:
  assumes X: "shaped r c X" and r: "0 < r" "r mod 4 = 0" and c: "0 < c"
    and h: "ha \<noteq> []" "length ha = length hb" "even (length ha)"
  shows "\<exists>Y. coldfilt X ha hb = Some (Inr Y) \<and> shaped (r div 2) c Y"
proof -
  let ?m = "int (length ha)"
  from r obtain k where k: "r = 4 * k" "0 < k" by (auto simp: mod_eq_0_iff_dvd)
  from h(3) obtain j where j1: "length ha = 2 * j" by (auto elim!: evenE)
  with h(1) have "0 < j" by (cases j) auto
  note j = j1 this
  have nr: "nrows X = r" using X by (rule shaped_nrows)
  have nc: "ncols X = c" using X r(1) by (rule shaped_ncols)
  have "0 \<le> (int r + ?m) - (- ?m)" by simp
  from reflect_rows [OF _ this, of "int r"] r(1)
  obtain xe where xe: "reflect (arange (- ?m) (int r + ?m) 1) (- 1 / 2) (real_of_int (int r) - 1 / 2) = Some xe"
    "length xe = nat ((int r + ?m) - (- ?m))" "\<forall>v\<in>set xe. 0 \<le> v \<and> v < int r"
    by auto
  have lxe: "int (length xe) = int r + 2 * ?m" using xe(2) by simp
  define t where "t = arange 5 (int r + 2 * ?m - 2) 4"
  have lt: "length t = k + j - 1"
    unfolding t_def using k j by (simp add: length_arange)
  have tb: "5 \<le> v \<and> v < int r + 2 * ?m - 2" if "v \<in> set t" for v
    using arange_bounds [of 4 v 5 "int r + 2 * ?m - 2"] that unfolding t_def by simp
  have idx: "\<forall>i\<in>set (map (\<lambda>i. i - d) t). 0 \<le> i \<and> i < int (length xe)"
    if "0 \<le> d" "d \<le> 3" for d
    using tb that lxe by fastforce
  have idx0: "\<forall>i\<in>set t. 0 \<le> i \<and> i < int (length xe)"
    using tb lxe by fastforce
  define e where "e = arange 0 (int r div 2) 2"
  define Y0 where "Y0 = zeros (nat (int r div 2)) c"
  have Y0: "shaped (r div 2) c Y0"
    unfolding Y0_def by (simp add: shaped_def zeros_def nat_div_distrib)
  have r2: "0 < r div 2" using k by simp
  have le: "length e = k" unfolding e_def using k by (simp add: length_arange)
  have eb: "0 \<le> v \<and> v + 1 < int (r div 2)" if "v \<in> set e" for v
  proof -
    from arange_bounds [of 2 v 0 "int r div 2"] that
    have "0 \<le> v" "v < int r div 2" "v mod 2 = 0" unfolding e_def by simp_all
    moreover have "(int r div 2) mod 2 = 0" using k by simp
    ultimately show ?thesis by (simp add: zdiv_int) presburger
  qed
  have se: "\<forall>i\<in>set e. 0 \<le> i \<and> i < int (r div 2)" using eb by fastforce
  have so: "\<forall>i\<in>set (map (\<lambda>i. i + 1) e). 0 \<le> i \<and> i < int (r div 2)" using eb by fastforce
  have hl: "slice_from 0 ha \<noteq> []" "slice_from 1 ha \<noteq> []" "slice_from 0 hb \<noteq> []"
    "length (slice_from 1 ha) = length (slice_from 0 ha)"
    "length (slice_from 1 hb) = length (slice_from 0 hb)"
    "length (slice_from 0 ha) = j" "length (slice_from 0 hb) = j"
    using length_slices_even [OF h(3)] length_slices_even [of hb] h j
    by (auto simp flip: length_greater_0_conv)
  have step: "\<exists>Y'. bind_e (filt_pair X xe ia hx ib hy) (set_rows Y s) = Inr Y' \<and> shaped (r div 2) c Y'"
    if "shaped (r div 2) c Y" "\<forall>i\<in>set ia. 0 \<le> i \<and> i < int (length xe)"
      "\<forall>i\<in>set ib. 0 \<le> i \<and> i < int (length xe)" "length ia = k + j - 1" "length ib = k + j - 1"
      "hx \<noteq> []" "length hy = length hx" "length hx = j"
      "length s = k" "\<forall>i\<in>set s. 0 \<le> i \<and> i < int (r div 2)"
    for Y ia ib hx hy s
  proof -
    have "length hx \<le> k + j - 1" using that(8) k(2) by simp
    from filt_pair_shaped [OF X c xe(3) that(2,3,4,5,6,7) this]
    obtain V where V: "filt_pair X xe ia hx ib hy = Inr V" "shaped (k + j - 1 - length hx + 1) c V"
      by blast
    have "k + j - 1 - length hx + 1 = length s" using that(8,9) k(2) j(2) by simp
    with V(2) have "shaped (length s) c V" by simp
    from set_rows_shaped [OF that(1) r2 this that(10)] V(1) show ?thesis
      by (simp add: bind_e_def)
  qed
  have body: "\<exists>Y. coldfilt_body X ha hb xe = Inr Y \<and> shaped (r div 2) c Y"
  proof (cases "sum_list (map2 (*) ha hb) > 0")
    case True
    from step [OF Y0 idx [of 1] idx [of 3] _ _ hl(1) hl(4) hl(6) le se]
    obtain Y1 where Y1: "bind_e (filt_pair X xe (map (\<lambda>i. i - 1) t) (slice_from 0 ha)
        (map (\<lambda>i. i - 3) t) (slice_from 1 ha)) (set_rows Y0 e) = Inr Y1" "shaped (r div 2) c Y1"
      by (auto simp: lt)
    from step [OF Y1(2) idx0 idx [of 2] lt _ hl(3) hl(5) hl(7) _ so]
    obtain Y2 where Y2: "bind_e (filt_pair X xe t (slice_from 0 hb)
        (map (\<lambda>i. i - 2) t) (slice_from 1 hb)) (set_rows Y1 (map (\<lambda>i. i + 1) e)) = Inr Y2"
        "shaped (r div 2) c Y2"
      by (auto simp: lt le)
    from Y1 Y2 True show ?thesis
      unfolding coldfilt_body_def Let_def nr nc t_def [symmetric] e_def [symmetric] Y0_def [symmetric]
      by (auto simp: bind_e_def split: sum.splits)
  next
    case False
    from step [OF Y0 idx [of 1] idx [of 3] _ _ hl(1) hl(4) hl(6) _ so]
    obtain Y1 where Y1: "bind_e (filt_pair X xe (map (\<lambda>i. i - 1) t) (slice_from 0 ha)
        (map (\<lambda>i. i - 3) t) (slice_from 1 ha)) (set_rows Y0 (map (\<lambda>i. i + 1) e)) = Inr Y1"
        "shaped (r div 2) c Y1"
      by (auto simp: lt le)
    from step [OF Y1(2) idx0 idx [of 2] lt _ hl(3) hl(5) hl(7) le se]
    obtain Y2 where Y2: "bind_e (filt_pair X xe t (slice_from 0 hb)
        (map (\<lambda>i. i - 2) t) (slice_from 1 hb)) (set_rows Y1 e) = Inr Y2"
        "shaped (r div 2) c Y2"
      by (auto simp: lt)
    from Y1 Y2 False show ?thesis
      unfolding coldfilt_body_def Let_def nr nc t_def [symmetric] e_def [symmetric] Y0_def [symmetric]
      by (auto simp: bind_e_def split: sum.splits)
  qed
  have "\<not> int r mod 4 \<noteq> 0" using k by simp
  with body xe(1) h show ?thesis
    by (auto simp: coldfilt_def Let_def nr)
qed


lemma conv_row_zeros:
  assumes "0 < n"
  shows "conv_row (zeros n c) h i = replicate c 0"
proof -
  have nc: "ncols (zeros n c) = c"
    using assms by (cases n) (simp_all add: ncols_def zeros_def)
  have "foldr (\<lambda>k acc. if k \<le> i \<and> i - k < length (zeros n c)
            then vadd (vscale (h ! k) (zeros n c ! (i - k))) acc else acc) ks (replicate c 0)
        = replicate c 0" for ks
    by (induction ks) (auto simp: vadd_def vscale_def zeros_def intro!: nth_equalityI)
  then show ?thesis
    by (simp add: conv_row_def nc)
qed

lemma column_convolve_zeros:
  assumes c: "0 < c" and h: "h \<noteq> []" and le: "length h \<le> n"
  shows "column_convolve (zeros n c) h = Inr (zeros (n - length h + 1) c)"
proof -
  from h have m: "0 < length h" by simp
  with le have n: "0 < n" by linarith
  then have ne: "zeros n c \<noteq> []" "ncols (zeros n c) = c" "nrows (zeros n c) = n"
    by (cases n; simp add: zeros_def ncols_def nrows_def)+
  have l: "n - (length h - 1) = n - length h + 1" using m le by linarith
  have a: "conv_valid (zeros n c) h = replicate (length [length h - 1..<n]) (replicate c 0)"
    unfolding conv_valid_def conv_row_zeros [OF n] map_replicate_const
    by (simp add: zeros_def)
  have b: "length [length h - 1..<n] = n - length h + 1" using l by simp
  have v: "conv_valid (zeros n c) h = zeros (n - length h + 1) c"
    unfolding a b by (simp only: zeros_def)
  have full: "conv_full (zeros n c) h = replicate (n + length h - 1) (replicate c 0)"
    unfolding conv_full_def conv_row_zeros [OF n] map_replicate_const
    by (simp add: zeros_def)
  have "length (centered (conv_full (zeros n c) h) (n - length h + 1)) = n - length h + 1"
    using m le by (rule length_centered) (simp add: full)
  then have "centered (conv_full (zeros n c) h) (n - length h + 1)
      = replicate (n - length h + 1) (replicate c 0)"
    by (simp add: full centered_def)
  then have f: "centered (conv_full (zeros n c) h) (n - length h + 1) = zeros (n - length h + 1) c"
    by (simp only: zeros_def)
  have "nat \<bar>int n - int (length h)\<bar> + 1 = n - length h + 1" using le by simp
  with v f ne h c le show ?thesis
    by (simp add: column_convolve_def Let_def)
qed

lemma filt_rows_zeros:
  assumes c: "0 < c"
    and xe: "\<forall>v\<in>set xe. 0 \<le> v \<and> v < int r"
    and idx: "\<forall>i\<in>set idx. 0 \<le> i \<and> i < int (length xe)"
    and h: "h \<noteq> []" and le: "length h \<le> length idx"
  shows "filt_rows (zeros r c) xe idx h = Inr (zeros (length idx - length h + 1) c)"
proof -
  from fancy_index_array [OF idx xe]
  obtain rows where rows: "fancy xe idx = Inr rows" "length rows = length idx"
    "\<forall>v\<in>set rows. 0 \<le> v \<and> v < int r" by blast
  from rows(3) have "fancy (zeros r c) rows = Inr (map (\<lambda>i. zeros r c ! nat i) rows)"
    by (intro fancy_in_range) (simp add: zeros_def)
  moreover have "map (\<lambda>i. zeros r c ! nat i) rows = zeros (length rows) c"
    using rows(3) by (auto simp: zeros_def nat_less_iff intro!: nth_equalityI)
  ultimately have "fancy (zeros r c) rows = Inr (zeros (length idx) c)"
    by (simp add: rows(2))
  with rows(1) column_convolve_zeros [OF c h le] show ?thesis
    by (simp add: filt_rows_def bind_e_def)
qed

lemma store_rows_same:
  "\<forall>i\<in>set idx. 0 \<le> i \<and> i < int (length Y) \<Longrightarrow> \<forall>v\<in>set V. v = z \<Longrightarrow> \<forall>y\<in>set Y. y = z \<Longrightarrow>
     store_rows Y idx V = Inr Y"
proof (induction Y idx V rule: store_rows.induct)
  case (3 Y i "is" v vs)
  from "3.prems" have "Y ! nat i = v" by (simp add: nat_less_iff)
  then have "Y[nat i := v] = Y" by (metis list_update_id)
  with 3 show ?case by simp
qed simp_all

lemma set_rows_zeros:
  assumes R: "0 < R" and idx: "\<forall>i\<in>set idx. 0 \<le> i \<and> i < int R"
  shows "set_rows (zeros R c) idx (zeros (length idx) c) = Inr (zeros R c)"
proof -
  have "shaped (length idx) c (zeros (length idx) c)" by (simp add: shaped_def zeros_def)
  then have "broadcast_to (length idx) c (zeros (length idx) c) = Inr (zeros (length idx) c)"
    by (rule broadcast_to_same)
  moreover have "ncols (zeros R c) = c" using R by (cases R) (simp_all add: zeros_def ncols_def)
  moreover have "store_rows (zeros R c) idx (zeros (length idx) c) = Inr (zeros R c)"
    using idx by (intro store_rows_same [where z = "replicate c 0"]) (simp_all add: zeros_def)
  ultimately show ?thesis by (simp add: set_rows_def bind_e_def)
qed


text \<open>
  The four stores of the general path of \<open>colifilt\<close>, for any property \<open>P\<close> of the output
  array that each store keeps.
\<close>

lemma colifilt_body_steps:
  fixes r :: nat
  assumes nr: "nrows X = r" and r: "0 < r" "even r"
    and h: "ha \<noteq> []" "length ha = length hb" "even (length ha)"
    and lxe: "int (length xe) = int r + int (length ha)"
    and step: "\<And>Y idx hx s. P Y \<Longrightarrow> \<forall>i\<in>set idx. 0 \<le> i \<and> i < int (length xe) \<Longrightarrow>
        length idx = r div 2 + length ha div 2 - 1 \<Longrightarrow> hx \<noteq> [] \<Longrightarrow>
        length hx = length ha div 2 \<Longrightarrow> length s = r div 2 \<Longrightarrow>
        \<forall>i\<in>set s. 0 \<le> i \<and> i < int (2 * r) \<Longrightarrow>
        \<exists>Y'. bind_e (filt_rows X xe idx hx) (set_rows Y s) = Inr Y' \<and> P Y'"
    and Y0: "P Y0"
  shows "\<exists>Y. colifilt_body X ha hb Y0 xe = Inr Y \<and> P Y"
proof -
  let ?m = "int (length ha)"
  from r obtain k where k: "r = 2 * k" "0 < k" by (auto elim!: evenE)
  from h(3) obtain j where j1: "length ha = 2 * j" by (auto elim!: evenE)
  with h(1) have "0 < j" by (cases j) auto
  note j = j1 this
  have hl: "slice_from 0 ha \<noteq> []" "slice_from 1 ha \<noteq> []" "slice_from 0 hb \<noteq> []"
    "slice_from 1 hb \<noteq> []"
    "length (slice_from 0 ha) = length ha div 2" "length (slice_from 1 ha) = length ha div 2"
    "length (slice_from 0 hb) = length ha div 2" "length (slice_from 1 hb) = length ha div 2"
    using length_slices_even [OF h(3)] length_slices_even [of hb] h j
    by (auto simp flip: length_greater_0_conv)
  define s where "s = arange 0 (int r * 2) 4"
  have ls: "length s = r div 2" unfolding s_def using k by (simp add: length_arange)
  have sb: "0 \<le> v \<and> v + 3 < int (2 * r)" if "v \<in> set s" for v
  proof -
    from arange_bounds [of 4 v 0 "int r * 2"] that
    have "0 \<le> v" "v < int r * 2" "v mod 4 = 0" unfolding s_def by simp_all
    moreover have "(int r * 2) mod 4 = 0" using k by simp
    ultimately show ?thesis by simp presburger
  qed
  have ss: "\<forall>i\<in>set (map (\<lambda>i. i + d) s). 0 \<le> i \<and> i < int (2 * r)" if "0 \<le> d" "d \<le> 3" for d
    using sb that by fastforce
  have ss0: "\<forall>i\<in>set s. 0 \<le> i \<and> i < int (2 * r)" using sb by fastforce
  have lsd: "length (map (\<lambda>i. i + d) s) = r div 2" for d by (simp add: ls)
  have four: "\<exists>Y. bind_e (filt_rows X xe i0 h0) (\<lambda>V0.
                  bind_e (set_rows Y0 s V0) (\<lambda>Y.
                  bind_e (filt_rows X xe i1 h1) (\<lambda>V1.
                  bind_e (set_rows Y (map (\<lambda>i. i + 1) s) V1) (\<lambda>Y.
                  bind_e (filt_rows X xe i2 h2) (\<lambda>V2.
                  bind_e (set_rows Y (map (\<lambda>i. i + 2) s) V2) (\<lambda>Y.
                  bind_e (filt_rows X xe i3 h3) (\<lambda>V3.
                  set_rows Y (map (\<lambda>i. i + 3) s) V3))))))) = Inr Y \<and> P Y"
    if i: "\<forall>i\<in>set i0. 0 \<le> i \<and> i < int (length xe)" "\<forall>i\<in>set i1. 0 \<le> i \<and> i < int (length xe)"
      "\<forall>i\<in>set i2. 0 \<le> i \<and> i < int (length xe)" "\<forall>i\<in>set i3. 0 \<le> i \<and> i < int (length xe)"
    and l: "length i0 = r div 2 + length ha div 2 - 1" "length i1 = r div 2 + length ha div 2 - 1"
      "length i2 = r div 2 + length ha div 2 - 1" "length i3 = r div 2 + length ha div 2 - 1"
    and hh: "h0 \<noteq> []" "h1 \<noteq> []" "h2 \<noteq> []" "h3 \<noteq> []"
      "length h0 = length ha div 2" "length h1 = length ha div 2"
      "length h2 = length ha div 2" "length h3 = length ha div 2"
    for i0 i1 i2 i3 h0 h1 h2 h3
  proof -
    from step [OF Y0 i(1) l(1) hh(1) hh(5) ls ss0]
    obtain Y1 where Y1: "bind_e (filt_rows X xe i0 h0) (set_rows Y0 s) = Inr Y1" "P Y1" by blast
    from step [OF Y1(2) i(2) l(2) hh(2) hh(6) lsd ss [of 1]]
    obtain Y2 where Y2: "bind_e (filt_rows X xe i1 h1) (set_rows Y1 (map (\<lambda>i. i + 1) s)) = Inr Y2"
      "P Y2" by auto
    from step [OF Y2(2) i(3) l(3) hh(3) hh(7) lsd ss [of 2]]
    obtain Y3 where Y3: "bind_e (filt_rows X xe i2 h2) (set_rows Y2 (map (\<lambda>i. i + 2) s)) = Inr Y3"
      "P Y3" by auto
    from step [OF Y3(2) i(4) l(4) hh(4) hh(8) lsd ss [of 3]]
    obtain Y4 where Y4: "bind_e (filt_rows X xe i3 h3) (set_rows Y3 (map (\<lambda>i. i + 3) s)) = Inr Y4"
      "P Y4" by auto
    from Y1 Y2 Y3 Y4 show ?thesis
      by (auto simp: bind_e_def split: sum.splits)
  qed
  show ?thesis
  proof (cases "(?m div 2) mod 2 = 0")
    case True
    define t where "t = arange 3 (int r + ?m) 2"
    have lt: "length t = r div 2 + length ha div 2 - 1"
      unfolding t_def using k j by (simp add: length_arange)
    have tb: "3 \<le> v \<and> v < int r + ?m" if "v \<in> set t" for v
      using arange_bounds [of 2 v 3 "int r + ?m"] that unfolding t_def by simp
    have i0: "\<forall>i\<in>set t. 0 \<le> i \<and> i < int (length xe)" using tb lxe by fastforce
    have i1: "\<forall>i\<in>set (map (\<lambda>i. i - 1) t). 0 \<le> i \<and> i < int (length xe)"
      using tb lxe by fastforce
    have i2: "\<forall>i\<in>set (map (\<lambda>i. i - 2) t). 0 \<le> i \<and> i < int (length xe)"
      using tb lxe by fastforce
    have i3: "\<forall>i\<in>set (map (\<lambda>i. i - 2) (map (\<lambda>i. i - 1) t)). 0 \<le> i \<and> i < int (length xe)"
      using tb lxe by fastforce
    show ?thesis
    proof (cases "sum_list (map2 (*) ha hb) > 0")
      case pos: True
      from four [OF i3 i2 i1 i0 _ _ _ lt hl(2) hl(4) hl(1) hl(3) hl(6) hl(8) hl(5) hl(7)]
      show ?thesis using True pos
        unfolding colifilt_body_def Let_def nr s_def [symmetric] t_def [symmetric]
        by (simp add: lt)
    next
      case neg: False
      from four [OF i2 i3 i0 i1 _ _ lt _ hl(2) hl(4) hl(1) hl(3) hl(6) hl(8) hl(5) hl(7)]
      show ?thesis using True neg
        unfolding colifilt_body_def Let_def nr s_def [symmetric] t_def [symmetric]
        by (simp add: lt)
    qed
  next
    case False
    define t where "t = arange 2 (int r + ?m - 1) 2"
    have lt: "length t = r div 2 + length ha div 2 - 1"
      unfolding t_def using k j by (simp add: length_arange)
    have tb: "2 \<le> v \<and> v < int r + ?m - 1" if "v \<in> set t" for v
      using arange_bounds [of 2 v 2 "int r + ?m - 1"] that unfolding t_def by simp
    have i0: "\<forall>i\<in>set t. 0 \<le> i \<and> i < int (length xe)" using tb lxe by fastforce
    have i1: "\<forall>i\<in>set (map (\<lambda>i. i - 1) t). 0 \<le> i \<and> i < int (length xe)"
      using tb lxe by fastforce
    show ?thesis
    proof (cases "sum_list (map2 (*) ha hb) > 0")
      case pos: True
      from four [OF i1 i0 i1 i0 _ lt _ lt hl(1) hl(3) hl(2) hl(4) hl(5) hl(7) hl(6) hl(8)]
      show ?thesis using False pos
        unfolding colifilt_body_def Let_def nr s_def [symmetric] t_def [symmetric]
        by (simp add: lt)
    next
      case neg: False
      from four [OF i0 i1 i0 i1 lt _ lt _ hl(1) hl(3) hl(2) hl(4) hl(5) hl(7) hl(6) hl(8)]
      show ?thesis using False neg
        unfolding colifilt_body_def Let_def nr s_def [symmetric] t_def [symmetric]
        by (simp add: lt)
    qed
  qed
qed

lemma colifilt_reflect:
  fixes r :: nat
  assumes r: "0 < r" and h: "even (length ha)"
  shows "\<exists>xe. reflect (arange (- (int (length ha) div 2)) (int r + int (length ha) div 2) 1)
             (- 1 / 2) (real_of_int (int r) - 1 / 2) = Some xe \<and>
           int (length xe) = int r + int (length ha) \<and> (\<forall>v\<in>set xe. 0 \<le> v \<and> v < int r)"
proof -
  let ?m2 = "int (length ha) div 2"
  have "0 \<le> (int r + ?m2) - (- ?m2)" by simp
  from reflect_rows [OF _ this, of "int r"] r
  obtain xe where xe: "reflect (arange (- ?m2) (int r + ?m2) 1) (- 1 / 2) (real_of_int (int r) - 1 / 2) = Some xe"
    "length xe = nat ((int r + ?m2) - (- ?m2))" "\<forall>v\<in>set xe. 0 \<le> v \<and> v < int r"
    by auto
  from h have "2 * ?m2 = int (length ha)" by (auto elim!: evenE)
  with xe(2) have "int (length xe) = int r + int (length ha)" by simp
  with xe(1,3) show ?thesis by blast
qed

lemma colifilt_general_shaped:
  assumes X: "shaped r c X" and r: "0 < r" "even r" and c: "0 < c"
    and h: "ha \<noteq> []" "length ha = length hb" "even (length ha)"
    and Y0: "shaped (2 * r) c Y0"
  shows "\<exists>Y. colifilt_general X ha hb Y0 = Some (Inr Y) \<and> shaped (2 * r) c Y"
proof -
  have nr: "nrows X = r" using X by (rule shaped_nrows)
  from colifilt_reflect [OF r(1) h(3)]
  obtain xe where xe: "reflect (arange (- (int (length ha) div 2)) (int r + int (length ha) div 2) 1)
      (- 1 / 2) (real_of_int (int r) - 1 / 2) = Some xe"
    "int (length xe) = int r + int (length ha)" "\<forall>v\<in>set xe. 0 \<le> v \<and> v < int r"
    by blast
  have "\<exists>Y'. bind_e (filt_rows X xe idx hx) (set_rows Y s) = Inr Y' \<and> shaped (2 * r) c Y'"
    if "shaped (2 * r) c Y" "\<forall>i\<in>set idx. 0 \<le> i \<and> i < int (length xe)"
      "length idx = r div 2 + length ha div 2 - 1" "hx \<noteq> []"
      "length hx = length ha div 2" "length s = r div 2"
      "\<forall>i\<in>set s. 0 \<le> i \<and> i < int (2 * r)"
    for Y idx hx s
  proof -
    from r have k: "0 < r div 2" by (auto elim!: evenE)
    with that(3,5) have le: "length hx \<le> length idx" by simp
    from filt_rows_shaped [OF X c xe(3) that(2,4) le]
    obtain V where V: "filt_rows X xe idx hx = Inr V" "shaped (length idx - length hx + 1) c V"
      by blast
    have "length idx - length hx + 1 = length s" using that(3,5,6) k by simp
    with V(2) have "shaped (length s) c V" by simp
    from set_rows_shaped [OF that(1) _ this that(7)] r(1) V(1) show ?thesis
      by (simp add: bind_e_def)
  qed
  from colifilt_body_steps [where P = "shaped (2 * r) c", OF nr r h xe(2) this Y0]
  obtain Y where "colifilt_body X ha hb Y0 xe = Inr Y" "shaped (2 * r) c Y" by blast
  with xe(1) show ?thesis by (simp add: colifilt_general_def Let_def nr)
qed

lemma colifilt_general_zeros:
  assumes r: "0 < r" "even r" and c: "0 < c"
    and h: "ha \<noteq> []" "length ha = length hb" "even (length ha)"
  shows "colifilt_general (zeros r c) ha hb (zeros (2 * r) c) = Some (Inr (zeros (2 * r) c))"
proof -
  have nr: "nrows (zeros r c) = r" by (simp add: nrows_def zeros_def)
  from colifilt_reflect [OF r(1) h(3)]
  obtain xe where xe: "reflect (arange (- (int (length ha) div 2)) (int r + int (length ha) div 2) 1)
      (- 1 / 2) (real_of_int (int r) - 1 / 2) = Some xe"
    "int (length xe) = int r + int (length ha)" "\<forall>v\<in>set xe. 0 \<le> v \<and> v < int r"
    by blast
  define P where "P = (\<lambda>Y. Y = zeros (2 * r) c)"
  have step: "\<exists>Y'. bind_e (filt_rows (zeros r c) xe idx hx) (set_rows Y s) = Inr Y' \<and> P Y'"
    if "P Y" "\<forall>i\<in>set idx. 0 \<le> i \<and> i < int (length xe)"
      "length idx = r div 2 + length ha div 2 - 1" "hx \<noteq> []"
      "length hx = length ha div 2" "length s = r div 2"
      "\<forall>i\<in>set s. 0 \<le> i \<and> i < int (2 * r)"
    for Y idx hx s
  proof -
    from that(1) have Y: "Y = zeros (2 * r) c" by (simp add: P_def)
    from r have k: "0 < r div 2" by (auto elim!: evenE)
    with that(3,5) have le: "length hx \<le> length idx" by simp
    have l: "length idx - length hx + 1 = length s" using that(3,5,6) k by simp
    have "filt_rows (zeros r c) xe idx hx = Inr (zeros (length s) c)"
      using filt_rows_zeros [OF c xe(3) that(2,4) le] by (simp only: l)
    moreover have "set_rows (zeros (2 * r) c) s (zeros (length s) c) = Inr (zeros (2 * r) c)"
      using r(1) that(7) by (intro set_rows_zeros) simp_all
    ultimately show ?thesis by (simp add: bind_e_def Y P_def)
  qed
  have "P (zeros (2 * r) c)" by (simp add: P_def)
  from colifilt_body_steps [of "zeros r c" r ha hb xe P, OF nr r h xe(2) step this]
  obtain Y where "colifilt_body (zeros r c) ha hb (zeros (2 * r) c) xe = Inr Y" and "P Y"
    by blast
  then have "colifilt_body (zeros r c) ha hb (zeros (2 * r) c) xe = Inr (zeros (2 * r) c)"
    by (simp only: P_def)
  with xe(1) show ?thesis by (simp add: colifilt_general_def Let_def nr)
qed

lemma nonzero_rows_zeros: "nonzero_rows (zeros r c) = []"
  by (simp add: nonzero_rows_def zeros_def)

lemma colifilt_shaped:
  assumes X: "shaped r c X" and r: "0 < r" "even r" and c: "0 < c"
    and h: "ha \<noteq> []" "length ha = length hb" "even (length ha)"
  shows "\<exists>Y. colifilt X ha hb = Some (Inr Y) \<and> shaped (2 * r) c Y"
proof -
  have nr: "nrows X = r" using X by (rule shaped_nrows)
  have nc: "ncols X = c" using X r(1) by (rule shaped_ncols)
  have Y0: "shaped (2 * r) c (zeros (r * 2) c)" by (simp add: shaped_def zeros_def)
  from colifilt_general_shaped [OF X r c h Y0] Y0 r(2) h(2,3) show ?thesis
    by (auto simp: colifilt_def Let_def nr nc)
qed

section \<open>The packer round trip\<close>

lemma nth_stride2: "i < length (stride2 xs) \<Longrightarrow> stride2 xs ! i = xs ! (2 * i)"
proof (induction xs arbitrary: i rule: stride2.induct)
  case (3 x y zs)
  then show ?case by (cases i) simp_all
qed simp_all

lemma nth_slice_from:
  "i < length (slice_from s xs) \<Longrightarrow> slice_from s xs ! i = xs ! (2 * i + s)"
proof -
  assume a: "i < length (slice_from s xs)"
  then have "2 * i + s < length xs"
    by (simp add: length_slice_from; linarith)
  with a show ?thesis
    by (simp add: slice_from_def nth_stride2 add.commute)
qed

lemma slice2_shaped:
  assumes "shaped (2 * H) (2 * W) y" and "ro < 2" and "co < 2"
  shows "shaped H W (slice2 ro co y)"
    and "\<And>i j. i < H \<Longrightarrow> j < W \<Longrightarrow> slice2 ro co y ! i ! j = y ! (2 * i + ro) ! (2 * j + co)"
proof -
  from assms(1) have len: "length y = 2 * H" and rows: "\<And>k. k < 2 * H \<Longrightarrow> length (y ! k) = 2 * W"
    by (simp_all add: shaped_def)
  have l1: "length (slice_from ro y) = H"
    using assms(2) by (simp add: length_slice_from len; linarith)
  have r1: "slice_from ro y ! i = y ! (2 * i + ro)" if "i < H" for i
    using that l1 by (simp add: nth_slice_from)
  have l2: "length (slice_from co (y ! (2 * i + ro))) = W" if "i < H" for i
  proof -
    from that assms(2) have "2 * i + ro < 2 * H" by linarith
    then have "length (y ! (2 * i + ro)) = 2 * W" by (rule rows)
    then show ?thesis using assms(3) by (simp add: length_slice_from; linarith)
  qed
  show "shaped H W (slice2 ro co y)"
    unfolding shaped_def slice2_def
    using l1 l2 r1 by (auto simp: in_set_conv_nth)
  show "slice2 ro co y ! i ! j = y ! (2 * i + ro) ! (2 * j + co)" if "i < H" "j < W" for i j
    using that l1 l2 r1 by (simp add: slice2_def nth_slice_from)
qed

lemma shaped_nth: "shaped r c A \<Longrightarrow> i < r \<Longrightarrow> length (A ! i) = c"
  by (simp add: shaped_def)

lemma shaped_map_map: "shaped r c A \<Longrightarrow> shaped r c (map (map f) A)"
  by (simp add: shaped_def)

lemma matrix_eqI:
  assumes "shaped r c A" and "shaped r c B"
    and "\<And>i j. i < r \<Longrightarrow> j < c \<Longrightarrow> A ! i ! j = B ! i ! j"
  shows "A = B"
proof (rule nth_equalityI)
  show "length A = length B" using assms(1,2) by (simp add: shaped_def)
  fix i assume "i < length A"
  then have i: "i < r" using assms(1) by (simp add: shaped_def)
  show "A ! i = B ! i"
  proof (rule nth_equalityI)
    show "length (A ! i) = length (B ! i)"
      using assms(1,2) i by (simp add: shaped_nth)
    fix j assume "j < length (A ! i)"
    then have "j < c" using assms(1) i by (simp add: shaped_nth)
    with i show "A ! i ! j = B ! i ! j" by (rule assms(3))
  qed
qed

lemma np_binop_entries:
  assumes A: "shaped n c A" and B: "shaped n c B"
  shows "\<exists>V. np_binop f A B = Inr V \<and> shaped n c V \<and>
           (\<forall>i<n. \<forall>j<c. V ! i ! j = f (A ! i ! j) (B ! i ! j))"
proof -
  have nr: "nrows A = n" "nrows B = n" using A B by (simp_all add: shaped_def nrows_def)
  have nc: "ncols A = ncols B" using A B by (rule shaped_ncols_eq)
  have c': "shaped n (ncols B) A \<and> shaped n (ncols B) B"
  proof (cases n)
    case 0
    with A B show ?thesis by (simp add: shaped_def)
  next
    case (Suc k)
    with A B have "ncols A = c" "ncols B = c" by (simp_all add: shaped_ncols)
    with A B show ?thesis by simp
  qed
  then have e: "np_binop f A B = Inr (map2 (map2 f) A B)"
    by (simp add: np_binop_def bdim_def nr nc broadcast_to_same bind_e_def)
  from np_binop_shaped [OF A B, of f] e have s: "shaped n c (map2 (map2 f) A B)" by simp
  have "map2 (map2 f) A B ! i ! j = f (A ! i ! j) (B ! i ! j)" if "i < n" "j < c" for i j
    using that A B by (simp add: shaped_def)
  with e s show ?thesis by simp
qed

lemma set_slice2_entries:
  assumes x: "shaped (2 * H) (2 * W) x" and V: "shaped H W V" and ro: "ro < 2" and co: "co < 2"
  shows "\<exists>x'. set_slice2 ro co x V = Inr x' \<and> shaped (2 * H) (2 * W) x' \<and>
           (\<forall>i<2 * H. \<forall>j<2 * W. x' ! i ! j =
              (if i mod 2 = ro \<and> j mod 2 = co then V ! (i div 2) ! (j div 2) else x ! i ! j))"
proof -
  let ?x' = "map (\<lambda>i. if i mod 2 = ro
                       then map (\<lambda>j. if j mod 2 = co then V ! (i div 2) ! (j div 2) else x ! i ! j)
                              [0..<length (x ! i)]
                       else x ! i) [0..<length x]"
  have s: "shaped H W (slice2 ro co x)" using x ro co by (rule slice2_shaped(1))
  have nr: "nrows (slice2 ro co x) = H" using s by (rule shaped_nrows)
  have b: "broadcast_to (nrows (slice2 ro co x)) (ncols (slice2 ro co x)) V = Inr V"
  proof (cases H)
    case 0
    with V s have "V = []" by (simp add: shaped_def)
    with 0 nr show ?thesis by (simp add: broadcast_to_def nrows_def)
  next
    case (Suc k)
    then have "ncols (slice2 ro co x) = W" using s by (simp add: shaped_ncols)
    with nr V show ?thesis by (simp add: broadcast_to_same)
  qed
  have len: "length x = 2 * H" and rows: "\<And>k. k < 2 * H \<Longrightarrow> length (x ! k) = 2 * W"
    using x by (simp_all add: shaped_def)
  have "shaped (2 * H) (2 * W) ?x'"
    unfolding shaped_def using len rows by auto
  moreover have "\<forall>i<2 * H. \<forall>j<2 * W. ?x' ! i ! j =
              (if i mod 2 = ro \<and> j mod 2 = co then V ! (i div 2) ! (j div 2) else x ! i ! j)"
    using len rows by simp
  ultimately show ?thesis
    unfolding set_slice2_def b bind_e_def by simp
qed


lemma quad_algebra:
  fixes a b c d :: real
  assumes p: "p = complex_of_real a * (complex_of_real (sqrt (1 / 2)) * 1)
                  + complex_of_real b * (complex_of_real (sqrt (1 / 2)) * \<i>)"
    and q: "q = complex_of_real d * (complex_of_real (sqrt (1 / 2)) * 1)
                - complex_of_real c * (complex_of_real (sqrt (1 / 2)) * \<i>)"
  shows "Re ((p - q) * complex_of_real (sqrt (1 / 2) * 1) + (p + q) * complex_of_real (sqrt (1 / 2) * 1)) = a"
    and "Im ((p - q) * complex_of_real (sqrt (1 / 2) * 1) + (p + q) * complex_of_real (sqrt (1 / 2) * 1)) = b"
    and "Im ((p - q) * complex_of_real (sqrt (1 / 2) * 1) - (p + q) * complex_of_real (sqrt (1 / 2) * 1)) = c"
    and "- Re ((p - q) * complex_of_real (sqrt (1 / 2) * 1) - (p + q) * complex_of_real (sqrt (1 / 2) * 1)) = d"
proof -
  have s: "sqrt (1 / 2) * sqrt (1 / 2) = 1 / 2" by simp
  have s': "x * sqrt (1 / 2) * sqrt (1 / 2) = x / 2" for x :: real
    using s by (simp add: mult.assoc)
  show "Re ((p - q) * complex_of_real (sqrt (1 / 2) * 1) + (p + q) * complex_of_real (sqrt (1 / 2) * 1)) = a"
    unfolding p q by (simp add: algebra_simps s')
  show "Im ((p - q) * complex_of_real (sqrt (1 / 2) * 1) + (p + q) * complex_of_real (sqrt (1 / 2) * 1)) = b"
    unfolding p q by (simp add: algebra_simps s')
  show "Im ((p - q) * complex_of_real (sqrt (1 / 2) * 1) - (p + q) * complex_of_real (sqrt (1 / 2) * 1)) = c"
    unfolding p q by (simp add: algebra_simps s')
  show "- Re ((p - q) * complex_of_real (sqrt (1 / 2) * 1) - (p + q) * complex_of_real (sqrt (1 / 2) * 1)) = d"
    unfolding p q by (simp add: algebra_simps s')
qed


lemma rc_scale_entries:
  assumes "shaped r c A"
  shows "shaped r c (rc_scale A u)"
    and "\<And>i j. i < r \<Longrightarrow> j < c \<Longrightarrow> rc_scale A u ! i ! j = complex_of_real (A ! i ! j) * u"
  using assms by (simp_all add: rc_scale_def shaped_def)

lemma cr_scale_entries:
  assumes "shaped r c A"
  shows "shaped r c (cr_scale A s)"
    and "\<And>i j. i < r \<Longrightarrow> j < c \<Longrightarrow> cr_scale A s ! i ! j = A ! i ! j * complex_of_real s"
  using assms by (simp_all add: cr_scale_def shaped_def)

lemma map_map_entries:
  assumes "shaped r c A"
  shows "shaped r c (map (map f) A)"
    and "\<And>i j. i < r \<Longrightarrow> j < c \<Longrightarrow> map (map f) A ! i ! j = f (A ! i ! j)"
  using assms by (simp_all add: shaped_def)

lemma j2_entries:
  "index1 j2 0 = Inr (complex_of_real (sqrt (1 / 2)) * 1)"
  "index1 j2 1 = Inr (complex_of_real (sqrt (1 / 2)) * \<i>)"
  by (simp_all add: index1_def j2_def)

lemma q2c_entries:
  assumes y: "shaped (2 * H) (2 * W) y"
  shows "\<exists>z. q2c y = Inr z \<and> shaped H W z \<and>
           (\<forall>i<H. \<forall>j<W. z ! i ! j = [quad_p y i j - quad_q y i j, quad_p y i j + quad_q y i j])"
proof -
  let ?j0 = "complex_of_real (sqrt (1 / 2)) * 1"
  let ?j1 = "complex_of_real (sqrt (1 / 2)) * \<i>"
  note sl = slice2_shaped [OF y]
  have s00: "shaped H W (rc_scale (slice2 0 0 y) ?j0)" and s01: "shaped H W (rc_scale (slice2 0 1 y) ?j1)"
    and s11: "shaped H W (rc_scale (slice2 1 1 y) ?j0)" and s10: "shaped H W (rc_scale (slice2 1 0 y) ?j1)"
    by (simp_all add: rc_scale_entries(1) sl(1))
  from np_binop_entries [OF s00 s01, of "(+)"]
  obtain p where p: "np_binop (+) (rc_scale (slice2 0 0 y) ?j0) (rc_scale (slice2 0 1 y) ?j1) = Inr p"
    "shaped H W p"
    "\<forall>i<H. \<forall>j<W. p ! i ! j = rc_scale (slice2 0 0 y) ?j0 ! i ! j + rc_scale (slice2 0 1 y) ?j1 ! i ! j"
    by blast
  from np_binop_entries [OF s11 s10, of "(-)"]
  obtain q where q: "np_binop (-) (rc_scale (slice2 1 1 y) ?j0) (rc_scale (slice2 1 0 y) ?j1) = Inr q"
    "shaped H W q"
    "\<forall>i<H. \<forall>j<W. q ! i ! j = rc_scale (slice2 1 1 y) ?j0 ! i ! j - rc_scale (slice2 1 0 y) ?j1 ! i ! j"
    by blast
  have pe: "p ! i ! j = quad_p y i j" if "i < H" "j < W" for i j
    using that p(3) by (simp add: rc_scale_entries(2) [OF sl(1)] sl(2) quad_p_def)
  have qe: "q ! i ! j = quad_q y i j" if "i < H" "j < W" for i j
    using that q(3) by (simp add: rc_scale_entries(2) [OF sl(1)] sl(2) quad_q_def)
  from np_binop_entries [OF p(2) q(2), of "(-)"]
  obtain d where d: "np_binop (-) p q = Inr d" "shaped H W d"
    "\<forall>i<H. \<forall>j<W. d ! i ! j = p ! i ! j - q ! i ! j" by blast
  from np_binop_entries [OF p(2) q(2), of "(+)"]
  obtain s where s: "np_binop (+) p q = Inr s" "shaped H W s"
    "\<forall>i<H. \<forall>j<W. s ! i ! j = p ! i ! j + q ! i ! j" by blast
  have e: "q2c y = Inr (dstack2 d s)"
    by (simp only: q2c_def j2_entries bind_e_def p(1) q(1) d(1) s(1) sum.case)
  have sh: "shaped H W (dstack2 d s)"
  proof -
    have "length (map2 (\<lambda>a b. [a, b]) u v) = W" if "(u, v) \<in> set (zip d s)" for u v
    proof -
      from that have "u \<in> set d" "v \<in> set s"
        by (auto dest: set_zip_leftD set_zip_rightD)
      with d(2) s(2) show ?thesis by (simp add: shaped_def)
    qed
    with d(2) s(2) show ?thesis by (auto simp: shaped_def dstack2_def)
  qed
  have "dstack2 d s ! i ! j = [quad_p y i j - quad_q y i j, quad_p y i j + quad_q y i j]"
    if "i < H" "j < W" for i j
  proof -
    from that d(2) s(2) have "dstack2 d s ! i ! j = [d ! i ! j, s ! i ! j]"
      by (simp add: dstack2_def shaped_def)
    with that d(3) s(3) pe qe show ?thesis by simp
  qed
  with e sh show ?thesis by simp
qed

lemma plane_entries:
  assumes z: "shaped H W z" and cells: "\<forall>i<H. \<forall>j<W. k < length (z ! i ! j)"
  shows "\<exists>A. plane k z = Inr A \<and> shaped H W A \<and> (\<forall>i<H. \<forall>j<W. A ! i ! j = z ! i ! j ! k)"
proof -
  have "list_all (list_all (\<lambda>cell. k < length cell)) z"
    using z cells unfolding list_all_iff shaped_def
    by (metis in_set_conv_nth)
  then have "plane k z = Inr (map (map (\<lambda>cell. cell ! k)) z)"
    by (simp add: plane_def)
  with map_map_entries [OF z, where f = "\<lambda>cell. cell ! k"] show ?thesis by simp
qed


lemma c2q_q2c_entries:
  assumes y: "shaped (2 * H) (2 * W) y"
  shows "bind_e (q2c y) (\<lambda>z. c2q z [1, 1]) = Inr y"
proof -
  from q2c_entries [OF y]
  obtain z where z: "q2c y = Inr z" "shaped H W z"
    "\<forall>i<H. \<forall>j<W. z ! i ! j = [quad_p y i j - quad_q y i j, quad_p y i j + quad_q y i j]"
    by blast
  define s0 where "s0 = sqrt (1 / 2) * 1"
  define x0 where "x0 = zeros (nrows z * 2) (ncols z * 2)"
  have nr: "nrows z = H" using z(2) by (rule shaped_nrows)
  have x0: "shaped (2 * H) (2 * W) x0"
  proof (cases H)
    case 0
    then show ?thesis by (simp add: x0_def nr zeros_def shaped_def)
  next
    case (Suc k)
    then have "ncols z = W" using z(2) by (simp add: shaped_ncols)
    then show ?thesis by (simp add: x0_def nr zeros_def shaped_def mult.commute)
  qed
  have sc: "index1 (map (\<lambda>g. sqrt (1 / 2) * g) [1, 1]) 0 = Inr s0"
    "index1 (map (\<lambda>g. sqrt (1 / 2) * g) [1, 1]) 1 = Inr s0"
    by (simp_all add: index1_def s0_def)
  from plane_entries [OF z(2), of 0] z(3)
  obtain w0 where w0: "plane 0 z = Inr w0" "shaped H W w0"
    "\<forall>i<H. \<forall>j<W. w0 ! i ! j = quad_p y i j - quad_q y i j"
    by auto
  from plane_entries [OF z(2), of 1] z(3)
  obtain w1 where w1: "plane 1 z = Inr w1" "shaped H W w1"
    "\<forall>i<H. \<forall>j<W. w1 ! i ! j = quad_p y i j + quad_q y i j"
    by auto
  note c0 = cr_scale_entries [OF w0(2), where s = s0] and c1 = cr_scale_entries [OF w1(2), where s = s0]
  from np_binop_entries [OF c0(1) c1(1), of "(+)"]
  obtain P where P: "np_binop (+) (cr_scale w0 s0) (cr_scale w1 s0) = Inr P" "shaped H W P"
    "\<forall>i<H. \<forall>j<W. P ! i ! j = cr_scale w0 s0 ! i ! j + cr_scale w1 s0 ! i ! j"
    by blast
  from np_binop_entries [OF c0(1) c1(1), of "(-)"]
  obtain Q where Q: "np_binop (-) (cr_scale w0 s0) (cr_scale w1 s0) = Inr Q" "shaped H W Q"
    "\<forall>i<H. \<forall>j<W. Q ! i ! j = cr_scale w0 s0 ! i ! j - cr_scale w1 s0 ! i ! j"
    by blast
  have Pe: "P ! i ! j = (quad_p y i j - quad_q y i j) * complex_of_real s0
                        + (quad_p y i j + quad_q y i j) * complex_of_real s0"
    and Qe: "Q ! i ! j = (quad_p y i j - quad_q y i j) * complex_of_real s0
                        - (quad_p y i j + quad_q y i j) * complex_of_real s0"
    if "i < H" "j < W" for i j
    using that P(3) Q(3) w0(3) w1(3) by (simp_all add: c0(2) c1(2))
  note m1 = map_map_entries [OF P(2), where f = Re] and m2 = map_map_entries [OF P(2), where f = Im]
    and m3 = map_map_entries [OF Q(2), where f = Im]
    and m4 = map_map_entries [OF Q(2), where f = "\<lambda>v. - Re v"]
  from set_slice2_entries [OF x0 m1(1), of 0 0]
  obtain x1 where x1: "set_slice2 0 0 x0 (map (map Re) P) = Inr x1" "shaped (2 * H) (2 * W) x1"
    "\<forall>i<2 * H. \<forall>j<2 * W. x1 ! i ! j =
       (if i mod 2 = 0 \<and> j mod 2 = 0 then map (map Re) P ! (i div 2) ! (j div 2) else x0 ! i ! j)"
    by auto
  from set_slice2_entries [OF x1(2) m2(1), of 0 1]
  obtain x2 where x2: "set_slice2 0 1 x1 (map (map Im) P) = Inr x2" "shaped (2 * H) (2 * W) x2"
    "\<forall>i<2 * H. \<forall>j<2 * W. x2 ! i ! j =
       (if i mod 2 = 0 \<and> j mod 2 = 1 then map (map Im) P ! (i div 2) ! (j div 2) else x1 ! i ! j)"
    by auto
  from set_slice2_entries [OF x2(2) m3(1), of 1 0]
  obtain x3 where x3: "set_slice2 1 0 x2 (map (map Im) Q) = Inr x3" "shaped (2 * H) (2 * W) x3"
    "\<forall>i<2 * H. \<forall>j<2 * W. x3 ! i ! j =
       (if i mod 2 = 1 \<and> j mod 2 = 0 then map (map Im) Q ! (i div 2) ! (j div 2) else x2 ! i ! j)"
    by auto
  from set_slice2_entries [OF x3(2) m4(1), of 1 1]
  obtain x4 where x4: "set_slice2 1 1 x3 (map (map (\<lambda>v. - Re v)) Q) = Inr x4"
    "shaped (2 * H) (2 * W) x4"
    "\<forall>i<2 * H. \<forall>j<2 * W. x4 ! i ! j =
       (if i mod 2 = 1 \<and> j mod 2 = 1 then map (map (\<lambda>v. - Re v)) Q ! (i div 2) ! (j div 2)
        else x3 ! i ! j)"
    by auto
  have e: "c2q z [1, 1] = Inr x4"
    unfolding c2q_def Let_def x0_def [symmetric]
    by (simp only: w0(1) w1(1) sc P(1) Q(1) x1(1) x2(1) x3(1) x4(1) bind_e_def sum.case)
  have "x4 = y"
  proof (rule matrix_eqI [OF x4(2) y])
    fix i j assume i: "i < 2 * H" and j: "j < 2 * W"
    define i' j' where "i' = i div 2" and "j' = j div 2"
    have h: "i' < H" "j' < W" using i j by (simp_all add: i'_def j'_def)
    note qa = quad_algebra [OF quad_p_def [of y i' j'] quad_q_def [of y i' j'], folded s0_def]
    have ent: "Re (P ! i' ! j') = y ! (2 * i') ! (2 * j')"
      "Im (P ! i' ! j') = y ! (2 * i') ! (2 * j' + 1)"
      "Im (Q ! i' ! j') = y ! (2 * i' + 1) ! (2 * j')"
      "- Re (Q ! i' ! j') = y ! (2 * i' + 1) ! (2 * j' + 1)"
      unfolding Pe [OF h] Qe [OF h] by (rule qa)+
    have par: "i mod 2 = 0 \<or> i mod 2 = 1" "j mod 2 = 0 \<or> j mod 2 = 1" by presburger+
    have ii: "i mod 2 = 0 \<Longrightarrow> 2 * i' = i" "i mod 2 = 1 \<Longrightarrow> 2 * i' + 1 = i"
      and jj: "j mod 2 = 0 \<Longrightarrow> 2 * j' = j" "j mod 2 = 1 \<Longrightarrow> 2 * j' + 1 = j"
      unfolding i'_def j'_def by presburger+
    have v: "map (map Re) P ! i' ! j' = Re (P ! i' ! j')"
      "map (map Im) P ! i' ! j' = Im (P ! i' ! j')"
      "map (map Im) Q ! i' ! j' = Im (Q ! i' ! j')"
      "map (map (\<lambda>v. - Re v)) Q ! i' ! j' = - Re (Q ! i' ! j')"
      using h by (simp_all add: m1(2) m2(2) m3(2) m4(2))
    have e1: "x1 ! i ! j = (if i mod 2 = 0 \<and> j mod 2 = 0 then map (map Re) P ! i' ! j' else x0 ! i ! j)"
      and e2: "x2 ! i ! j = (if i mod 2 = 0 \<and> j mod 2 = 1 then map (map Im) P ! i' ! j' else x1 ! i ! j)"
      and e3: "x3 ! i ! j = (if i mod 2 = 1 \<and> j mod 2 = 0 then map (map Im) Q ! i' ! j' else x2 ! i ! j)"
      and e4: "x4 ! i ! j = (if i mod 2 = 1 \<and> j mod 2 = 1 then map (map (\<lambda>v. - Re v)) Q ! i' ! j'
                             else x3 ! i ! j)"
      using i j x1(3) x2(3) x3(3) x4(3) by (simp_all add: i'_def j'_def)
    from par show "x4 ! i ! j = y ! i ! j"
      using e1 e2 e3 e4 v ent ii jj
      by (elim disjE) simp_all
  qed
  with z(1) e show ?thesis by (simp add: bind_e_def)
qed

section \<open>Shapes through the forward transform\<close>

lemma bind_r_simps [simp]:
  "bind_r None f = None"
  "bind_r (Some (Inl e)) f = Some (Inl e)"
  "bind_r (Some (Inr v)) f = f v"
  by (simp_all add: bind_r_def)

lemma transp_shaped:
  assumes "shaped r c X" and "0 < r"
  shows "shaped c r (transp X)"
proof -
  have "ncols X = c" using assms by (rule shaped_ncols)
  with assms(1) show ?thesis by (simp add: transp_def shaped_def)
qed

lemma tzeros_tshaped: "tshaped H W B (tzeros H W B)"
  by (simp add: tshaped_def shaped_def tzeros_def)

lemma broadcast_to_shaped:
  assumes T: "shaped H W T" and z: "shaped H W z"
  shows "broadcast_to (nrows T) (ncols T) z = Inr z"
proof (cases H)
  case 0
  with T z have "T = []" "z = []" by (simp_all add: shaped_def)
  then show ?thesis by (simp add: broadcast_to_def nrows_def)
next
  case (Suc k)
  with T have "nrows T = H" "ncols T = W" by (simp_all add: shaped_nrows shaped_ncols)
  with z show ?thesis by (simp add: broadcast_to_same)
qed

lemma set_bands_tshaped:
  assumes T: "tshaped H W B T" and z: "shaped H W z"
  shows "\<exists>T'. set_bands b0 b1 T z = Inr T' \<and> tshaped H W B T'"
proof -
  let ?f = "\<lambda>cell zc. cell[b0 := zc ! 0, b1 := zc ! 1]"
  from T have sh: "shaped H W T" and cells: "\<forall>row\<in>set T. \<forall>cell\<in>set row. length cell = B"
    by (simp_all add: tshaped_def)
  have e: "set_bands b0 b1 T z = Inr (map2 (map2 ?f) T z)"
    by (simp add: set_bands_def broadcast_to_shaped [OF sh z] bind_e_def)
  have row: "length (map2 ?f u v) = W \<and> (\<forall>cell\<in>set (map2 ?f u v). length cell = B)"
    if "(u, v) \<in> set (zip T z)" for u v
  proof -
    from that have u: "u \<in> set T" and v: "v \<in> set z"
      by (auto dest: set_zip_leftD set_zip_rightD)
    with sh z have "length u = W" "length v = W" by (simp_all add: shaped_def)
    moreover have "length (?f a b) = B" if "(a, b) \<in> set (zip u v)" for a b
    proof -
      from that have "a \<in> set u" by (auto dest: set_zip_leftD)
      with cells u show ?thesis by simp
    qed
    ultimately show ?thesis by auto
  qed
  have "shaped H W (map2 (map2 ?f) T z)"
    using sh z row by (auto simp: shaped_def)
  moreover have "length cell = B" if "r \<in> set (map2 (map2 ?f) T z)" "cell \<in> set r" for r cell
  proof -
    from that(1) obtain u v where "(u, v) \<in> set (zip T z)" "r = map2 ?f u v" by auto
    with row that(2) show ?thesis by blast
  qed
  ultimately show ?thesis using e by (simp add: tshaped_def)
qed

lemma q2c_shaped:
  assumes "shaped (2 * H) (2 * W) y"
  shows "\<exists>z. q2c y = Inr z \<and> shaped H W z"
  using q2c_entries [OF assms] by blast

lemma subband_pair_tshaped:
  assumes F: "filt A = Some (Inr F)" "shaped (2 * W) (2 * H) F" and W: "0 < W"
    and T: "tshaped H W 6 T"
  shows "\<exists>T'. subband_pair filt A b0 b1 T = Some (Inr T') \<and> tshaped H W 6 T'"
proof -
  from W have "0 < 2 * W" by simp
  with F(2) have "shaped (2 * H) (2 * W) (transp F)" by (rule transp_shaped)
  from q2c_shaped [OF this]
  obtain z where z: "q2c (transp F) = Inr z" "shaped H W z" by blast
  from set_bands_tshaped [OF T z(2), of b0 b1] F(1) z(1) show ?thesis
    by (auto simp: subband_pair_def)
qed


lemma colfilter_odd_shaped:
  assumes "shaped r c X" and "0 < r" and "0 < c" and "odd (length h)"
  shows "\<exists>Y. colfilter X h = Some (Inr Y) \<and> shaped r c Y"
proof -
  from assms(4) have "h \<noteq> []" by auto
  from colfilter_shaped [OF assms(1,2,3) this] assms(4) show ?thesis by simp
qed

lemma level1_shaped:
  assumes X: "shaped (2 * H) (2 * W) X" and H: "0 < H" and W: "0 < W"
    and h: "odd (length (h0o bi))" "odd (length (h1o bi))"
  shows "\<exists>LoLo T. level1 bi X = Some (Inr (LoLo, T)) \<and> shaped (2 * H) (2 * W) LoLo \<and>
           tshaped H W 6 T"
proof -
  from H W have p: "0 < 2 * H" "0 < 2 * W" by simp_all
  from colfilter_odd_shaped [OF X p h(1)]
  obtain L where L: "colfilter X (h0o bi) = Some (Inr L)" "shaped (2 * H) (2 * W) L" by blast
  from colfilter_odd_shaped [OF X p h(2)]
  obtain Hh where Hh: "colfilter X (h1o bi) = Some (Inr Hh)" "shaped (2 * H) (2 * W) Hh" by blast
  have Lo: "shaped (2 * W) (2 * H) (transp L)" using L(2) p(1) by (rule transp_shaped)
  have Hi: "shaped (2 * W) (2 * H) (transp Hh)" using Hh(2) p(1) by (rule transp_shaped)
  from colfilter_odd_shaped [OF Lo p(2,1) h(1)]
  obtain LL where LL: "colfilter (transp L) (h0o bi) = Some (Inr LL)" "shaped (2 * W) (2 * H) LL"
    by blast
  have LoLo: "shaped (2 * H) (2 * W) (transp LL)" using LL(2) p(2) by (rule transp_shaped)
  then have d: "nrows (transp LL) div 2 = H" "ncols (transp LL) div 2 = W"
    using p by (simp_all add: shaped_nrows shaped_ncols)
  from colfilter_odd_shaped [OF Hi p(2,1) h(1)]
  obtain F1 where F1: "colfilter (transp Hh) (h0o bi) = Some (Inr F1)" "shaped (2 * W) (2 * H) F1"
    by blast
  from colfilter_odd_shaped [OF Lo p(2,1) h(2)]
  obtain F2 where F2: "colfilter (transp L) (h1o bi) = Some (Inr F2)" "shaped (2 * W) (2 * H) F2"
    by blast
  from colfilter_odd_shaped [OF Hi p(2,1) h(2)]
  obtain F3 where F3: "colfilter (transp Hh) (h1o bi) = Some (Inr F3)" "shaped (2 * W) (2 * H) F3"
    by blast
  from subband_pair_tshaped [of "\<lambda>A. colfilter A (h0o bi)", OF F1 W tzeros_tshaped]
  obtain T1 where T1: "subband_pair (\<lambda>A. colfilter A (h0o bi)) (transp Hh) 0 5 (tzeros H W 6)
      = Some (Inr T1)" "tshaped H W 6 T1" by blast
  from subband_pair_tshaped [of "\<lambda>A. colfilter A (h1o bi)", OF F2 W T1(2)]
  obtain T2 where T2: "subband_pair (\<lambda>A. colfilter A (h1o bi)) (transp L) 2 3 T1
      = Some (Inr T2)" "tshaped H W 6 T2" by blast
  from subband_pair_tshaped [of "\<lambda>A. colfilter A (h1o bi)", OF F3 W T2(2)]
  obtain T3 where T3: "subband_pair (\<lambda>A. colfilter A (h1o bi)) (transp Hh) 1 4 T2
      = Some (Inr T3)" "tshaped H W 6 T3" by blast
  have "level1 bi X = Some (Inr (transp LL, T3))"
    by (simp only: level1_def Let_def L(1) Hh(1) LL(1) d T1(1) T2(1) T3(1) bind_r_simps)
  with LoLo T3(2) show ?thesis by blast
qed


lemma column_shaped:
  assumes "shaped r c X" and "0 < r" and "0 < c"
  shows "\<exists>col0 col1. column X 0 = Inr col0 \<and> column X (- 1) = Inr col1 \<and>
           length col0 = r \<and> length col1 = r"
proof -
  have "ncols X = c" using assms(1,2) by (rule shaped_ncols)
  moreover have "length X = r" using assms(1) by (simp add: shaped_def)
  ultimately show ?thesis using assms(3) by (simp add: column_def Let_def)
qed

lemma extend4_shaped:
  assumes X: "shaped r c X" and r: "0 < r" and c: "0 < c"
  shows "\<exists>P. extend4 X = Inr P \<and> shaped (pad4 r) (pad4 c) P"
proof -
  have nr: "nrows X = r" using X by (rule shaped_nrows)
  have nc: "ncols X = c" using X r by (rule shaped_ncols)
  have len: "length X = r" using X by (simp add: shaped_def)
  define L1 where "L1 = (if r mod 4 \<noteq> 0 then [X ! 0] @ X @ [X ! (r - 1)] else X)"
  have i: "index1 X 0 = Inr (X ! 0)" "index1 X (- 1) = Inr (X ! (r - 1))"
    using r len by (simp_all add: index1_def Let_def nat_diff_distrib')
  have rows: "X ! 0 \<in> set X" "X ! (r - 1) \<in> set X" using r len by simp_all
  have L1: "shaped (pad4 r) c L1"
    using X rows by (auto simp: L1_def pad4_def shaped_def)
  have s1: "(if r mod 4 \<noteq> 0
             then bind_e (index1 X 0) (\<lambda>r0. bind_e (index1 X (- 1)) (\<lambda>r1. Inr ([r0] @ X @ [r1])))
             else Inr X) = Inr L1"
    by (simp add: L1_def i bind_e_def)
  have pr: "0 < pad4 r" using r by (simp add: pad4_def)
  from column_shaped [OF L1 pr c]
  obtain c0 c1 where cols: "column L1 0 = Inr c0" "column L1 (- 1) = Inr c1"
    "length c0 = pad4 r" "length c1 = pad4 r" by blast
  have hs: "shaped (pad4 r) (c + 2) (hstack_both c0 L1 c1)"
  proof -
    have "length (hstack_both c0 L1 c1) = pad4 r"
      using L1 cols(3,4) by (simp add: hstack_both_def shaped_def)
    moreover have "length row = c + 2" if "row \<in> set (hstack_both c0 L1 c1)" for row
    proof -
      from that obtain v0 p where vp: "(v0, p) \<in> set (zip c0 (zip L1 c1))"
        and row: "row = (case p of (u, v1) \<Rightarrow> v0 # u @ [v1])"
        by (auto simp: hstack_both_def)
      obtain u v1 where p: "p = (u, v1)" by (cases p)
      from vp have "p \<in> set (zip L1 c1)" by (rule set_zip_rightD)
      with p have "u \<in> set L1" by (auto dest: set_zip_leftD)
      with L1 row p show ?thesis by (simp add: shaped_def)
    qed
    ultimately show ?thesis by (simp add: shaped_def)
  qed
  have "extend4 X = Inr (if c mod 4 \<noteq> 0 then hstack_both c0 L1 c1 else L1)"
    unfolding extend4_def Let_def nr nc s1 by (simp add: bind_e_def cols)
  moreover have "shaped (pad4 r) (pad4 c) (if c mod 4 \<noteq> 0 then hstack_both c0 L1 c1 else L1)"
    using hs L1 by (simp add: pad4_def)
  ultimately show ?thesis by blast
qed

lemma level_filters_shaped:
  assumes P: "shaped (4 * a) (4 * b) P" and a: "0 < a" and b: "0 < b" and qs: "qshift_even qs"
  shows "\<exists>LoLo T. level_filters qs P = Some (Inr (LoLo, T)) \<and> shaped (2 * a) (2 * b) LoLo \<and>
           tshaped a b 6 T"
proof -
  from qs have h0: "h0b qs \<noteq> []" "length (h0b qs) = length (h0a qs)" "even (length (h0b qs))"
    and h1: "h1b qs \<noteq> []" "length (h1b qs) = length (h1a qs)" "even (length (h1b qs))"
    by (auto simp: qshift_even_def)
  from a b have p: "0 < 4 * a" "0 < 4 * b" "0 < 2 * a" "0 < 2 * b" by simp_all
  have m: "4 * a mod 4 = 0" "4 * b mod 4 = 0" "4 * a div 2 = 2 * a" "4 * b div 2 = 2 * b"
    by simp_all
  from coldfilt_shaped [OF P p(1) m(1) p(2) h0]
  obtain L where L: "coldfilt P (h0b qs) (h0a qs) = Some (Inr L)" "shaped (2 * a) (4 * b) L"
    by (auto simp: m)
  from coldfilt_shaped [OF P p(1) m(1) p(2) h1]
  obtain Hh where Hh: "coldfilt P (h1b qs) (h1a qs) = Some (Inr Hh)" "shaped (2 * a) (4 * b) Hh"
    by (auto simp: m)
  have Lo: "shaped (4 * b) (2 * a) (transp L)" using L(2) p(3) by (rule transp_shaped)
  have Hi: "shaped (4 * b) (2 * a) (transp Hh)" using Hh(2) p(3) by (rule transp_shaped)
  from coldfilt_shaped [OF Lo p(2) m(2) p(3) h0]
  obtain LL where LL: "coldfilt (transp L) (h0b qs) (h0a qs) = Some (Inr LL)"
    "shaped (2 * b) (2 * a) LL"
    by (auto simp: m)
  have LoLo: "shaped (2 * a) (2 * b) (transp LL)" using LL(2) p(4) by (rule transp_shaped)
  then have d: "nrows (transp LL) div 2 = a" "ncols (transp LL) div 2 = b"
    using p by (simp_all add: shaped_nrows shaped_ncols)
  from coldfilt_shaped [OF Hi p(2) m(2) p(3) h0]
  obtain F1 where F1: "coldfilt (transp Hh) (h0b qs) (h0a qs) = Some (Inr F1)"
    "shaped (2 * b) (2 * a) F1"
    by (auto simp: m)
  from coldfilt_shaped [OF Lo p(2) m(2) p(3) h1]
  obtain F2 where F2: "coldfilt (transp L) (h1b qs) (h1a qs) = Some (Inr F2)"
    "shaped (2 * b) (2 * a) F2"
    by (auto simp: m)
  from coldfilt_shaped [OF Hi p(2) m(2) p(3) h1]
  obtain F3 where F3: "coldfilt (transp Hh) (h1b qs) (h1a qs) = Some (Inr F3)"
    "shaped (2 * b) (2 * a) F3"
    by (auto simp: m)
  from subband_pair_tshaped [of "\<lambda>A. coldfilt A (h0b qs) (h0a qs)", OF F1 b tzeros_tshaped]
  obtain T1 where T1: "subband_pair (\<lambda>A. coldfilt A (h0b qs) (h0a qs)) (transp Hh) 0 5 (tzeros a b 6)
      = Some (Inr T1)" "tshaped a b 6 T1" by blast
  from subband_pair_tshaped [of "\<lambda>A. coldfilt A (h1b qs) (h1a qs)", OF F2 b T1(2)]
  obtain T2 where T2: "subband_pair (\<lambda>A. coldfilt A (h1b qs) (h1a qs)) (transp L) 2 3 T1
      = Some (Inr T2)" "tshaped a b 6 T2" by blast
  from subband_pair_tshaped [of "\<lambda>A. coldfilt A (h1b qs) (h1a qs)", OF F3 b T2(2)]
  obtain T3 where T3: "subband_pair (\<lambda>A. coldfilt A (h1b qs) (h1a qs)) (transp Hh) 1 4 T2
      = Some (Inr T3)" "tshaped a b 6 T3" by blast
  have "level_filters qs P = Some (Inr (transp LL, T3))"
    by (simp only: level_filters_def Let_def L(1) Hh(1) LL(1) d T1(1) T2(1) T3(1) bind_r_simps)
  with LoLo T3(2) show ?thesis by blast
qed

lemma pad4_even:
  assumes "even n" and "0 < n"
  shows "pad4 n mod 4 = 0" and "0 < pad4 n div 4" and "even (pad4 n div 2)" and "0 < pad4 n div 2"
    and "4 * (pad4 n div 4) = pad4 n" and "2 * (pad4 n div 4) = pad4 n div 2"
  using assms unfolding pad4_def by presburger+

lemma level_step_shaped:
  assumes X: "shaped r c X" and r: "0 < r" "even r" and c: "0 < c" "even c"
    and qs: "qshift_even qs"
  shows "\<exists>P LoLo T. extend4 X = Inr P \<and> shaped (pad4 r) (pad4 c) P \<and>
           level_step qs X = Some (Inr (LoLo, T)) \<and>
           shaped (pad4 r div 2) (pad4 c div 2) LoLo \<and> tshaped (pad4 r div 4) (pad4 c div 4) 6 T"
proof -
  from extend4_shaped [OF X r(1) c(1)]
  obtain P where P: "extend4 X = Inr P" "shaped (pad4 r) (pad4 c) P" by blast
  note pr = pad4_even [OF r(2,1)] and pc = pad4_even [OF c(2,1)]
  from P(2) have "shaped (4 * (pad4 r div 4)) (4 * (pad4 c div 4)) P"
    by (simp only: pr(5) pc(5))
  from level_filters_shaped [OF this pr(2) pc(2) qs]
  obtain LoLo T where "level_filters qs P = Some (Inr (LoLo, T))"
    "shaped (pad4 r div 2) (pad4 c div 2) LoLo" "tshaped (pad4 r div 4) (pad4 c div 4) 6 T"
    unfolding pr(6) pc(6) by blast
  with P show ?thesis by (simp add: level_step_def)
qed

lemma level_loop_state:
  assumes qs: "qshift_even qs"
  shows "shaped r c LoLo \<Longrightarrow> 0 < r \<Longrightarrow> even r \<Longrightarrow> 0 < c \<Longrightarrow> even c \<Longrightarrow>
    \<exists>LoLo' Ths' Ys'. level_loop qs inc levels (LoLo, Ths, Ys) = Some (Inr (LoLo', Ths', Ys')) \<and>
       (levels = [] \<longrightarrow> LoLo' = LoLo) \<and>
       Ys' = (if inc \<and> levels \<noteq> [] then Ys[0 := Some LoLo'] else Ys) \<and>
       length Ths' = length Ths"
proof (induction levels arbitrary: r c LoLo Ths Ys)
  case Nil
  then show ?case by simp
next
  case (Cons level levels)
  from level_step_shaped [OF Cons.prems qs]
  obtain L1 T where st: "level_step qs LoLo = Some (Inr (L1, T))"
    "shaped (pad4 r div 2) (pad4 c div 2) L1"
    by blast
  note pr = pad4_even [OF Cons.prems(3,2)] and pc = pad4_even [OF Cons.prems(5,4)]
  let ?Ys = "if inc then Ys[0 := Some L1] else Ys"
  from Cons.IH [OF st(2) pr(4,3) pc(4,3), of "Ths[level := Some T]" ?Ys]
  obtain LoLo' Ths' Ys' where r: "level_loop qs inc levels (L1, Ths[level := Some T], ?Ys)
      = Some (Inr (LoLo', Ths', Ys'))" "levels = [] \<longrightarrow> LoLo' = L1"
    "Ys' = (if inc \<and> levels \<noteq> [] then ?Ys[0 := Some LoLo'] else ?Ys)"
    "length Ths' = length (Ths[level := Some T])"
    by blast
  have "level_loop qs inc (level # levels) (LoLo, Ths, Ys) = Some (Inr (LoLo', Ths', Ys'))"
    by (simp add: st(1) r(1))
  moreover have "Ys' = (if inc then Ys[0 := Some LoLo'] else Ys)"
    using r(2,3) by (cases "levels = []") simp_all
  ultimately show ?case using r(4) by simp
qed

lemma extend_even_shaped:
  assumes X: "shaped r c X" and r: "0 < r" and c: "0 < c"
  shows "\<exists>X'. extend_even X = Inr X' \<and> shaped (r + r mod 2) (c + c mod 2) X'"
proof -
  have nr: "nrows X = r" using X by (rule shaped_nrows)
  have nc: "ncols X = c" using X r by (rule shaped_ncols)
  have len: "length X = r" using X by (simp add: shaped_def)
  define X1 where "X1 = (if r mod 2 \<noteq> 0 then X @ [X ! (r - 1)] else X)"
  have i: "index1 X (- 1) = Inr (X ! (r - 1))"
    using r len by (simp add: index1_def Let_def nat_diff_distrib')
  have "X ! (r - 1) \<in> set X" using r len by simp
  with X have X1: "shaped (r + r mod 2) c X1"
    by (auto simp: X1_def shaped_def)
  have s1: "(if r mod 2 \<noteq> 0 then bind_e (index1 X (- 1)) (\<lambda>row. Inr (X @ [row])) else Inr X) = Inr X1"
    by (simp add: X1_def i bind_e_def)
  have "0 < r + r mod 2" using r by simp
  from column_shaped [OF X1 this c]
  obtain col where col: "column X1 (- 1) = Inr col" "length col = r + r mod 2" by blast
  have hs: "shaped (r + r mod 2) (c + 1) (hstack_right X1 col)"
  proof -
    have "length (hstack_right X1 col) = r + r mod 2"
      using X1 col(2) by (simp add: hstack_right_def shaped_def)
    moreover have "length row = c + 1" if "row \<in> set (hstack_right X1 col)" for row
    proof -
      from that obtain u v where "(u, v) \<in> set (zip X1 col)" "row = u @ [v]"
        by (auto simp: hstack_right_def)
      then have "u \<in> set X1" "row = u @ [v]" by (auto dest: set_zip_leftD)
      with X1 show ?thesis by (simp add: shaped_def)
    qed
    ultimately show ?thesis by (simp add: shaped_def)
  qed
  have "extend_even X = Inr (if c mod 2 \<noteq> 0 then hstack_right X1 col else X1)"
    unfolding extend_even_def nr nc s1 by (simp add: bind_e_def col(1))
  moreover have "shaped (r + r mod 2) (c + c mod 2) (if c mod 2 \<noteq> 0 then hstack_right X1 col else X1)"
  proof (cases "c mod 2 \<noteq> 0")
    case True
    then have "c mod 2 = 1" by presburger
    with hs True show ?thesis by simp
  next
    case False
    with X1 show ?thesis by simp
  qed
  ultimately show ?thesis by blast
qed

lemma dtwavexfm2_scale:
  assumes X: "shaped r c X" and r: "0 < r" and c: "0 < c"
    and h: "odd (length (h0o bi))" "odd (length (h1o bi))" and qs: "qshift_even qs"
    and n: "2 \<le> n"
  shows "\<exists>res. dtwavexfm2 X n bi qs True = Some (Inr res) \<and> length (Yh res) = nat n \<and>
           Yscale res = Some (Some (Yl res) # replicate (nat n - 1) None)"
proof -
  from extend_even_shaped [OF X r c]
  obtain X' where X': "extend_even X = Inr X'" "shaped (r + r mod 2) (c + c mod 2) X'" by blast
  obtain H W where HW: "r + r mod 2 = 2 * H" "c + c mod 2 = 2 * W" "0 < H" "0 < W"
  proof -
    have "r + r mod 2 = 2 * ((r + 1) div 2)" "c + c mod 2 = 2 * ((c + 1) div 2)"
      "0 < (r + 1) div 2" "0 < (c + 1) div 2"
      using r c by presburger+
    then show ?thesis by (rule that)
  qed
  from X'(2) have X2: "shaped (2 * H) (2 * W) X'" by (simp only: HW)
  from level1_shaped [OF X2 HW(3,4) h]
  obtain LoLo T where l1: "level1 bi X' = Some (Inr (LoLo, T))" "shaped (2 * H) (2 * W) LoLo"
    by blast
  let ?Yh = "(replicate (nat n) None)[0 := Some T]"
  let ?Ys = "(replicate (nat n) None)[0 := Some LoLo]"
  from HW(3,4) have p: "0 < 2 * H" "even (2 * H)" "0 < 2 * W" "even (2 * W)" by simp_all
  from level_loop_state [OF qs l1(2) p, of True "[1..<nat n]" ?Yh ?Ys]
  obtain LoLo' Ths' Ys' where lp: "level_loop qs True [1..<nat n] (LoLo, ?Yh, ?Ys)
      = Some (Inr (LoLo', Ths', Ys'))"
    "Ys' = (if True \<and> [1..<nat n] \<noteq> [] then ?Ys[0 := Some LoLo'] else ?Ys)"
    "length Ths' = length ?Yh"
    by blast
  from n have ne: "[1..<nat n] \<noteq> []" by simp
  obtain k where k: "nat n = Suc k" using n by (cases "nat n") simp_all
  from lp(2) ne have Ys: "Ys' = Some LoLo' # replicate (nat n - 1) None"
    by (simp add: k)
  let ?res = "\<lparr>Yl = LoLo', Yh = Ths', Yscale = Some Ys',
               row_extended = (nrows X mod 2 \<noteq> 0), col_extended = (ncols X mod 2 \<noteq> 0)\<rparr>"
  from n have n0: "n \<noteq> 0" "\<not> n < 0" by simp_all
  have "dtwavexfm2 X n bi qs True = Some (Inr ?res)"
    by (simp add: dtwavexfm2_def X'(1) Let_def n0 l1(1) lp(1) del: One_nat_def)
  with Ys lp(3) show ?thesis by simp
qed

text \<open>The shapes of the lowpass image and of every subband array through the loop and the
  whole transform.\<close>

lemma lolo_dim_even:
  assumes "even s" and "0 < s"
  shows "even (lolo_dim s k) \<and> 0 < lolo_dim s k"
proof (induction k)
  case 0
  from assms show ?case by simp
next
  case (Suc k)
  then have "even (lolo_dim s k)" "0 < lolo_dim s k" by simp_all
  from pad4_even(3,4) [OF this] show ?case by simp
qed

lemma level_loop_shapes:
  assumes qs: "qshift_even qs" and R: "even R" "0 < R" and C: "even C" "0 < C"
  shows "shaped (lolo_dim R (a - 1)) (lolo_dim C (a - 1)) LoLo \<Longrightarrow> 1 \<le> a \<Longrightarrow>
    b \<le> length Ths \<Longrightarrow>
    \<exists>LoLo' Ths' Ys'. level_loop qs inc [a..<b] (LoLo, Ths, Ys) = Some (Inr (LoLo', Ths', Ys')) \<and>
       length Ths' = length Ths \<and>
       shaped (lolo_dim R (max a b - 1)) (lolo_dim C (max a b - 1)) LoLo' \<and>
       (\<forall>l<a. Ths' ! l = Ths ! l) \<and>
       (\<forall>l. a \<le> l \<and> l < b \<longrightarrow>
          (\<exists>T. Ths' ! l = Some T \<and> tshaped (lolo_dim R l div 2) (lolo_dim C l div 2) 6 T))"
proof (induction "b - a" arbitrary: a LoLo Ths Ys)
  case 0
  then have ba: "b \<le> a" by simp
  then have "[a..<b] = []" "max a b = a" by simp_all
  with 0 ba show ?case by auto
next
  case (Suc d)
  from Suc.hyps(2) have ab: "a < b" by simp
  then have upt: "[a..<b] = a # [Suc a..<b]" by (simp add: upt_rec)
  from lolo_dim_even [OF R, of "a - 1"]
  have er: "0 < lolo_dim R (a - 1)" "even (lolo_dim R (a - 1))" by simp_all
  from lolo_dim_even [OF C, of "a - 1"]
  have ec: "0 < lolo_dim C (a - 1)" "even (lolo_dim C (a - 1))" by simp_all
  from level_step_shaped [OF Suc.prems(1) er ec qs]
  obtain L1 T where st: "level_step qs LoLo = Some (Inr (L1, T))"
    "shaped (pad4 (lolo_dim R (a - 1)) div 2) (pad4 (lolo_dim C (a - 1)) div 2) L1"
    "tshaped (pad4 (lolo_dim R (a - 1)) div 4) (pad4 (lolo_dim C (a - 1)) div 4) 6 T"
    by blast
  from Suc.prems(2) obtain a' where a': "a = Suc a'" by (cases a) simp_all
  have dimR: "pad4 (lolo_dim R (a - 1)) div 2 = lolo_dim R a"
    and dimC: "pad4 (lolo_dim C (a - 1)) div 2 = lolo_dim C a"
    by (simp_all add: a')
  have q: "pad4 (lolo_dim R (a - 1)) div 4 = lolo_dim R a div 2"
    "pad4 (lolo_dim C (a - 1)) div 4 = lolo_dim C a div 2"
    unfolding dimR [symmetric] dimC [symmetric] by (simp_all add: div_mult2_eq [symmetric])
  from st(2) have L1: "shaped (lolo_dim R (Suc a - 1)) (lolo_dim C (Suc a - 1)) L1"
    by (simp only: dimR dimC diff_Suc_1)
  from st(3) have T: "tshaped (lolo_dim R a div 2) (lolo_dim C a div 2) 6 T"
    by (simp only: q)
  let ?Ths = "Ths[a := Some T]"
  let ?Ys = "if inc then Ys[0 := Some L1] else Ys"
  have d: "d = b - Suc a" using Suc.hyps(2) by simp
  have len: "b \<le> length ?Ths" using Suc.prems(3) by simp
  from Suc.hyps(1) [OF d L1 _ len, of ?Ys]
  obtain LoLo' Ths' Ys' where r: "level_loop qs inc [Suc a..<b] (L1, ?Ths, ?Ys)
      = Some (Inr (LoLo', Ths', Ys'))"
    "length Ths' = length ?Ths"
    "shaped (lolo_dim R (max (Suc a) b - 1)) (lolo_dim C (max (Suc a) b - 1)) LoLo'"
    "\<forall>l<Suc a. Ths' ! l = ?Ths ! l"
    "\<forall>l. Suc a \<le> l \<and> l < b \<longrightarrow>
       (\<exists>T. Ths' ! l = Some T \<and> tshaped (lolo_dim R l div 2) (lolo_dim C l div 2) 6 T)"
    by auto
  have e: "level_loop qs inc [a..<b] (LoLo, Ths, Ys) = Some (Inr (LoLo', Ths', Ys'))"
    unfolding upt by (simp add: st(1) r(1))
  have m: "max (Suc a) b = max a b" using ab by simp
  have before: "\<forall>l<a. Ths' ! l = Ths ! l" using r(4) by simp
  have at: "Ths' ! a = Some T" using r(4) ab Suc.prems(3) by simp
  have slots: "\<exists>T. Ths' ! l = Some T \<and> tshaped (lolo_dim R l div 2) (lolo_dim C l div 2) 6 T"
    if "a \<le> l" "l < b" for l
  proof (cases "l = a")
    case True
    with at T show ?thesis by simp
  next
    case False
    with that have "Suc a \<le> l \<and> l < b" by simp
    with r(5) show ?thesis by blast
  qed
  from e r(2) r(3) before slots show ?case
    unfolding m by simp
qed

lemma dtwavexfm2_shapes:
  assumes X: "shaped r c X" and r: "0 < r" and c: "0 < c"
    and h: "odd (length (h0o bi))" "odd (length (h1o bi))" and qs: "qshift_even qs"
    and n: "1 \<le> n"
  shows "\<exists>res. dtwavexfm2 X n bi qs inc = Some (Inr res) \<and> length (Yh res) = nat n \<and>
           shaped (lolo_dim (r + r mod 2) (nat n - 1)) (lolo_dim (c + c mod 2) (nat n - 1)) (Yl res) \<and>
           (\<forall>l<nat n. \<exists>T. Yh res ! l = Some T \<and>
              tshaped (lolo_dim (r + r mod 2) l div 2) (lolo_dim (c + c mod 2) l div 2) 6 T)"
proof -
  let ?R = "r + r mod 2" and ?C = "c + c mod 2"
  from extend_even_shaped [OF X r c]
  obtain X' where X': "extend_even X = Inr X'" "shaped ?R ?C X'" by blast
  have ev: "even ?R" "0 < ?R" "even ?C" "0 < ?C" using r c by presburger+
  obtain H W where HW: "?R = 2 * H" "?C = 2 * W" "0 < H" "0 < W"
  proof -
    have "?R = 2 * ((r + 1) div 2)" "?C = 2 * ((c + 1) div 2)"
      "0 < (r + 1) div 2" "0 < (c + 1) div 2"
      using r c by presburger+
    then show ?thesis by (rule that)
  qed
  from X'(2) have X2: "shaped (2 * H) (2 * W) X'" by (simp only: HW)
  from level1_shaped [OF X2 HW(3,4) h]
  obtain LoLo T where l1: "level1 bi X' = Some (Inr (LoLo, T))" "shaped (2 * H) (2 * W) LoLo"
    "tshaped H W 6 T"
    by blast
  have T: "tshaped (lolo_dim ?R 0 div 2) (lolo_dim ?C 0 div 2) 6 T"
    using l1(3) by (simp add: HW)
  have L: "shaped (lolo_dim ?R (1 - 1)) (lolo_dim ?C (1 - 1)) LoLo"
    using l1(2) by (simp add: HW)
  let ?Ths = "(replicate (nat n) None)[0 := Some T]"
  let ?Ys = "if inc then (replicate (nat n) None)[0 := Some LoLo] else replicate (nat n) None"
  have len: "nat n \<le> length ?Ths" by simp
  from level_loop_shapes [OF qs ev L _ len, of inc ?Ys]
  obtain LoLo' Ths' Ys' where lp: "level_loop qs inc [1..<nat n] (LoLo, ?Ths, ?Ys)
      = Some (Inr (LoLo', Ths', Ys'))"
    "length Ths' = length ?Ths"
    "shaped (lolo_dim ?R (max 1 (nat n) - 1)) (lolo_dim ?C (max 1 (nat n) - 1)) LoLo'"
    "\<forall>l<1. Ths' ! l = ?Ths ! l"
    "\<forall>l. 1 \<le> l \<and> l < nat n \<longrightarrow>
       (\<exists>T. Ths' ! l = Some T \<and> tshaped (lolo_dim ?R l div 2) (lolo_dim ?C l div 2) 6 T)"
    by auto
  from n have n0: "n \<noteq> 0" "\<not> n < 0" "0 < nat n" "max (Suc 0) (nat n) = nat n" by simp_all
  let ?res = "\<lparr>Yl = LoLo', Yh = Ths', Yscale = (if inc then Some Ys' else None),
               row_extended = (nrows X mod 2 \<noteq> 0), col_extended = (ncols X mod 2 \<noteq> 0)\<rparr>"
  have e: "dtwavexfm2 X n bi qs inc = Some (Inr ?res)"
    by (simp add: dtwavexfm2_def X'(1) Let_def n0 l1(1) lp(1) del: One_nat_def)
  have slots: "\<exists>T. Ths' ! l = Some T \<and> tshaped (lolo_dim ?R l div 2) (lolo_dim ?C l div 2) 6 T"
    if "l < nat n" for l
  proof (cases l)
    case 0
    with lp(4) n0(3) have "Ths' ! l = Some T" by simp
    with T 0 show ?thesis by simp
  next
    case (Suc k)
    with that have "1 \<le> l \<and> l < nat n" by simp
    with lp(5) show ?thesis by blast
  qed
  from e lp(2) lp(3) slots show ?thesis
    by (simp add: n0(4))
qed

lemma reflect_loop_stuck:
  assumes "reflect_max maxx (reflect_min minx y) = y" and "list_ex (\<lambda>v. real_of_int v < minx) y"
  shows "reflect_loop minx maxx y = None"
proof -
  have "\<not> (a = minx \<and> b = maxx \<and> z = y)" if "reflect_loop a b z = Some r" for a b z r
    using that
  proof (induction a b z r rule: reflect_loop.raw_induct [rotated, consumes 1])
    case (1 f a b z r)
    show ?case
    proof
      assume "a = minx \<and> b = maxx \<and> z = y"
      then have a: "a = minx" and b: "b = maxx" and z: "z = y" by blast+
      from 1(2) have "f minx maxx y = Some r"
        unfolding a b z using assms by simp
      then show False using 1(1) by blast
    qed
  qed
  then have "reflect_loop minx maxx y \<noteq> Some r" for r by blast
  then show ?thesis by (metis option.exhaust)
qed

text \<open>
  C7, as amended. For every integer index sequence \<open>x\<close> and bounds \<open>minx < maxx\<close> that are
  integers or integers plus one half, all of magnitude at most \<open>2^50\<close> (where the
  floating-point arithmetic of the code is exact), \<open>reflect\<close> returns a sequence of the
  same length whose every element lies within \<open>[minx, maxx]\<close>, and every element of \<open>x\<close>
  already within \<open>[minx, maxx]\<close> is returned unchanged at its position. The function works
  on a copy: the model is a pure function of \<open>x\<close>.
\<close>

theorem reflect_range_identity:
  assumes "half_integral minx" and "half_integral maxx" and "minx < maxx"
    and "exact_range x minx maxx"
  shows "\<exists>y. reflect x minx maxx = Some y \<and> length y = length x \<and>
      (\<forall>i<length x. minx \<le> real_of_int (y ! i) \<and> real_of_int (y ! i) \<le> maxx \<and>
         (minx \<le> real_of_int (x ! i) \<and> real_of_int (x ! i) \<le> maxx \<longrightarrow> y ! i = x ! i))"
  using assms(1-3) by (rule reflect_total)

theorem reflect_range_identity_witness:
  "half_integral (- 1 / 2) \<and> half_integral (7 / 2) \<and> (- 1 / 2 :: real) < 7 / 2 \<and>
   exact_range [- 2, 1, 5] (- 1 / 2) (7 / 2) \<and>
   reflect [- 2, 1, 5] (- 1 / 2) (7 / 2) = Some [1, 1, 2]"
proof -
  have h: "half_integral (- 1 / 2)" "half_integral (7 / 2)" "(- 1 / 2 :: real) < 7 / 2"
    "exact_range [- 2, 1, 5] (- 1 / 2) (7 / 2)"
    by (simp_all add: half_integral_def exact_range_def)
  have "reflect [- 2, 1, 5] (- 1 / 2) (7 / 2) = Some [1, 1, 2]"
    using reflect_range_identity [OF h]
    by (simp add: reflect_def reflect_loop.simps reflect_max_def reflect_min_def trunc_def)
  with h show ?thesis by simp
qed

text \<open>
  C7 as stated fails for bounds that are not half-integral: with \<open>minx = -5\<close> and
  \<open>maxx = -0.3\<close> the index \<open>0\<close> lies above \<open>maxx\<close>, its reflection \<open>-0.6\<close> is stored into
  the integer array as \<open>0\<close>, nothing lies below \<open>minx\<close>, and \<open>reflect\<close> returns \<open>[0]\<close>,
  outside \<open>[-5, -0.3]\<close>.
\<close>

theorem reflect_range_counterexample:
  "(- 5 :: real) < - 3 / 10 \<and> reflect [0] (- 5) (- 3 / 10) = Some [0] \<and>
   \<not> real_of_int 0 \<le> - 3 / 10"
  by (simp add: reflect_def reflect_loop.simps reflect_max_def reflect_min_def trunc_def)

text \<open>
  C10, as amended. For every finite integer index sequence and every pair of bounds
  \<open>minx < maxx\<close> that are integers or integers plus one half, all of magnitude at most
  \<open>2^50\<close> (where the floating-point arithmetic of the code is exact), the loop of
  \<open>reflect\<close> terminates: \<open>reflect\<close> returns a value.
\<close>

theorem reflect_terminates:
  assumes "half_integral minx" and "half_integral maxx" and "minx < maxx"
    and "exact_range x minx maxx"
  shows "\<exists>y. reflect x minx maxx = Some y"
  using reflect_total [OF assms(1-3), of x] by blast

theorem reflect_terminates_witness:
  "half_integral (- 1 / 2) \<and> half_integral (3 / 2) \<and> (- 1 / 2 :: real) < 3 / 2 \<and>
   exact_range [- 7, 9] (- 1 / 2) (3 / 2) \<and>
   reflect [- 7, 9] (- 1 / 2) (3 / 2) \<noteq> None"
proof -
  have h: "half_integral (- 1 / 2)" "half_integral (3 / 2)" "(- 1 / 2 :: real) < 3 / 2"
    "exact_range [- 7, 9] (- 1 / 2) (3 / 2)"
    by (simp_all add: half_integral_def exact_range_def)
  from reflect_terminates [OF h] h show ?thesis by auto
qed

text \<open>
  C10 as stated fails: with \<open>minx = 0.1\<close> and \<open>maxx = 1.3\<close> the index \<open>0\<close> lies below
  \<open>minx\<close>, its reflection \<open>0.2\<close> is stored into the integer array as \<open>0\<close> again, and the
  loop repeats on the same array for ever.
\<close>

theorem reflect_diverges_counterexample:
  "(1 / 10 :: real) < 13 / 10 \<and> reflect [0] (1 / 10) (13 / 10) = None"
proof -
  have "reflect_max (13 / 10) (reflect_min (1 / 10) [0]) = [0]"
    by (simp add: reflect_max_def reflect_min_def trunc_def)
  moreover have "list_ex (\<lambda>v. real_of_int v < 1 / 10) [0]" by simp
  ultimately have "reflect_loop (1 / 10) (13 / 10) [0] = None"
    by (rule reflect_loop_stuck)
  moreover have "reflect_max (13 / 10) [0] = [0]"
    by (simp add: reflect_max_def)
  ultimately show ?thesis by (simp add: reflect_def)
qed

text \<open>
  C4. For every image \<open>X\<close> with \<open>R \<ge> 1\<close> rows (and at least one column) and every filter
  kernel \<open>h\<close> of length \<open>m \<ge> 1\<close>, \<open>colfilter X h\<close> returns a matrix with \<open>R\<close> rows when
  \<open>m\<close> is odd and with \<open>R + 1\<close> rows when \<open>m\<close> is even; the column count is unchanged.
\<close>

theorem colfilter_row_count:
  assumes "is_matrix X" and "1 \<le> nrows X" and "1 \<le> ncols X" and "h \<noteq> []"
  shows "\<exists>Y. colfilter X h = Some (Inr Y) \<and> is_matrix Y \<and>
           nrows Y = (if odd (length h) then nrows X else nrows X + 1) \<and>
           ncols Y = ncols X"
proof -
  from assms(1) have X: "shaped (nrows X) (ncols X) X" by (rule is_matrix_shaped)
  from colfilter_shaped [OF X _ _ assms(4)] assms(2,3)
  obtain Y where Y: "colfilter X h = Some (Inr Y)"
    "shaped (if odd (length h) then nrows X else nrows X + 1) (ncols X) Y"
    by auto
  have "0 < (if odd (length h) then nrows X else nrows X + 1)" using assms(2) by simp
  with Y(2) have "ncols Y = ncols X" by (rule shaped_ncols)
  with Y shaped_nrows [OF Y(2)] shaped_is_matrix [OF Y(2)] show ?thesis by simp
qed

theorem colfilter_row_count_witness:
  "is_matrix [[1, 2], [3, 4 :: real]] \<and> 1 \<le> nrows [[1, 2], [3, 4 :: real]] \<and>
   1 \<le> ncols [[1, 2], [3, 4 :: real]] \<and> [1, 1 :: real] \<noteq> [] \<and>
   colfilter [[1, 2], [3, 4]] [1, 1] = Some (Inr [[2, 4], [4, 6], [6, 8]])"
proof -
  have h: "is_matrix [[1, 2], [3, 4 :: real]]" "1 \<le> nrows [[1, 2], [3, 4 :: real]]"
    "1 \<le> ncols [[1, 2], [3, 4 :: real]]" "[1, 1 :: real] \<noteq> []"
    by (simp_all add: is_matrix_def nrows_def ncols_def)
  have e: "colfilter [[1, 2], [3, 4]] [1, 1] = Some (Inr [[2, 4], [4, 6], [6, 8]])"
    by code_simp
  from colfilter_row_count [OF h] e have
    "colfilter [[1, 2], [3, 4]] [1, 1] = Some (Inr [[2, 4], [4, 6], [6, 8]])"
    by simp
  with h show ?thesis by simp
qed

text \<open>
  C5. For every image \<open>X\<close> with \<open>R\<close> rows, \<open>R\<close> a positive multiple of 4, and every
  equal-length even-length pair of non-empty filters, \<open>coldfilt\<close> returns an array of
  \<open>R/2\<close> rows and the columns of \<open>X\<close>, and \<open>colifilt\<close> applied to that array with the same
  pair returns an array of the shape of \<open>X\<close>. For every image \<open>Z\<close> with an even, positive
  number of rows \<open>colifilt\<close> returns an array of twice the rows and the same columns.
\<close>

theorem coldfilt_colifilt_shape:
  assumes "is_matrix X" and "0 < nrows X" and "nrows X mod 4 = 0" and "0 < ncols X"
    and "is_matrix Z" and "0 < nrows Z" and "even (nrows Z)" and "0 < ncols Z"
    and "ha \<noteq> []" and "length ha = length hb" and "even (length ha)"
  shows "(\<exists>Y W. coldfilt X ha hb = Some (Inr Y) \<and> is_matrix Y \<and>
            nrows Y = nrows X div 2 \<and> ncols Y = ncols X \<and>
            colifilt Y ha hb = Some (Inr W) \<and> is_matrix W \<and>
            nrows W = nrows X \<and> ncols W = ncols X) \<and>
         (\<exists>W. colifilt Z ha hb = Some (Inr W) \<and> is_matrix W \<and>
            nrows W = 2 * nrows Z \<and> ncols W = ncols Z)"
proof -
  have X: "shaped (nrows X) (ncols X) X" using assms(1) by (rule is_matrix_shaped)
  have Z: "shaped (nrows Z) (ncols Z) Z" using assms(5) by (rule is_matrix_shaped)
  from coldfilt_shaped [OF X assms(2,3,4) assms(9,10,11)]
  obtain Y where Y: "coldfilt X ha hb = Some (Inr Y)" "shaped (nrows X div 2) (ncols X) Y"
    by blast
  from assms(2,3) have r2: "0 < nrows X div 2" "even (nrows X div 2)" "2 * (nrows X div 2) = nrows X"
    by presburger+
  from colifilt_shaped [OF Y(2) r2(1,2) assms(4) assms(9,10,11)]
  obtain W where W: "colifilt Y ha hb = Some (Inr W)" "shaped (nrows X) (ncols X) W"
    unfolding r2(3) by blast
  from colifilt_shaped [OF Z assms(6,7,8) assms(9,10,11)]
  obtain W' where W': "colifilt Z ha hb = Some (Inr W')" "shaped (2 * nrows Z) (ncols Z) W'"
    by blast
  have z2: "0 < 2 * nrows Z" using assms(6) by simp
  have "is_matrix Y" "nrows Y = nrows X div 2" "ncols Y = ncols X"
    using Y(2) r2(1) by (simp_all add: shaped_nrows shaped_ncols shaped_is_matrix)
  moreover have "is_matrix W" "nrows W = nrows X" "ncols W = ncols X"
    using W(2) assms(2) by (simp_all add: shaped_nrows shaped_ncols shaped_is_matrix)
  moreover have "is_matrix W'" "nrows W' = 2 * nrows Z" "ncols W' = ncols Z"
    using W'(2) z2 by (simp_all add: shaped_nrows shaped_ncols shaped_is_matrix)
  ultimately show ?thesis using Y(1) W(1) W'(1) by simp
qed


theorem coldfilt_colifilt_shape_witness:
  "is_matrix [[1], [2], [3], [4 :: real]] \<and> 0 < nrows [[1], [2], [3], [4 :: real]] \<and>
   nrows [[1], [2], [3], [4 :: real]] mod 4 = 0 \<and> 0 < ncols [[1], [2], [3], [4 :: real]] \<and>
   is_matrix [[1], [2 :: real]] \<and> 0 < nrows [[1], [2 :: real]] \<and> even (nrows [[1], [2 :: real]]) \<and>
   0 < ncols [[1], [2 :: real]] \<and> [1, 2 :: real] \<noteq> [] \<and>
   length [1, 2 :: real] = length [2, 1 :: real] \<and> even (length [1, 2 :: real]) \<and>
   coldfilt [[1], [2], [3], [4]] [1, 2] [2, 1] = Some (Inr [[5], [10]]) \<and>
   colifilt [[5], [10]] [1, 2] [2, 1] = Some (Inr [[5], [20], [10], [10]]) \<and>
   colifilt [[1], [2]] [1, 2] [2, 1] = Some (Inr [[1], [4], [2], [2]])"
proof -
  have h: "is_matrix [[1], [2], [3], [4 :: real]]" "0 < nrows [[1], [2], [3], [4 :: real]]"
    "nrows [[1], [2], [3], [4 :: real]] mod 4 = 0" "0 < ncols [[1], [2], [3], [4 :: real]]"
    "is_matrix [[1], [2 :: real]]" "0 < nrows [[1], [2 :: real]]" "even (nrows [[1], [2 :: real]])"
    "0 < ncols [[1], [2 :: real]]" "[1, 2 :: real] \<noteq> []"
    "length [1, 2 :: real] = length [2, 1 :: real]" "even (length [1, 2 :: real])"
    by (simp_all add: is_matrix_def nrows_def ncols_def)
  have e: "coldfilt [[1], [2], [3], [4]] [1, 2] [2, 1] = Some (Inr [[5], [10]])"
    "colifilt [[5], [10]] [1, 2] [2, 1] = Some (Inr [[5], [20], [10], [10]])"
    "colifilt [[1], [2]] [1, 2] [2, 1] = Some (Inr [[1], [4], [2], [2]])"
    by code_simp+
  from coldfilt_colifilt_shape [OF h] h e show ?thesis by simp
qed

text \<open>
  C6. \<open>coldfilt\<close> raises an error exactly when the row count of \<open>X\<close> is not a multiple of
  4, or the lengths of \<open>ha\<close> and \<open>hb\<close> differ, or the common length is odd. The three
  violations are checked in this order and each raises a \<open>ValueError\<close> with a message of
  its own; the function ends there (the model returns the error, nothing is retried).
  When all three preconditions hold, on an image and non-empty filters, no error is
  raised and the function returns an array.
\<close>

theorem coldfilt_errors:
  "(nrows X mod 4 \<noteq> 0 \<longrightarrow>
      coldfilt X ha hb = Some (Inl (ValueError ''No. of rows in X must be a multiple of 4''))) \<and>
   (nrows X mod 4 = 0 \<longrightarrow> length ha \<noteq> length hb \<longrightarrow>
      coldfilt X ha hb = Some (Inl (ValueError ''Shapes of ha and hb must be the same''))) \<and>
   (nrows X mod 4 = 0 \<longrightarrow> length ha = length hb \<longrightarrow> odd (length ha) \<longrightarrow>
      coldfilt X ha hb = Some (Inl (ValueError ''Lengths of ha and hb must be even''))) \<and>
   (is_matrix X \<longrightarrow> 0 < nrows X \<longrightarrow> 0 < ncols X \<longrightarrow> ha \<noteq> [] \<longrightarrow>
      ((\<exists>e. coldfilt X ha hb = Some (Inl e)) \<longleftrightarrow>
         (nrows X mod 4 \<noteq> 0 \<or> length ha \<noteq> length hb \<or> odd (length ha))) \<and>
      (nrows X mod 4 = 0 \<longrightarrow> length ha = length hb \<longrightarrow> even (length ha) \<longrightarrow>
         (\<exists>Y. coldfilt X ha hb = Some (Inr Y))))"
proof -
  have im: "int (nrows X) mod 4 = 0 \<longleftrightarrow> nrows X mod 4 = 0" by presburger
  have e1: "coldfilt X ha hb = Some (Inl (ValueError ''No. of rows in X must be a multiple of 4''))"
    if "nrows X mod 4 \<noteq> 0"
    using that by (simp add: coldfilt_def Let_def im)
  have e2: "coldfilt X ha hb = Some (Inl (ValueError ''Shapes of ha and hb must be the same''))"
    if "nrows X mod 4 = 0" "length ha \<noteq> length hb"
    using that by (simp add: coldfilt_def Let_def im)
  have e3: "coldfilt X ha hb = Some (Inl (ValueError ''Lengths of ha and hb must be even''))"
    if "nrows X mod 4 = 0" "length ha = length hb" "odd (length ha)"
    using that by (simp add: coldfilt_def Let_def im odd_iff_mod_2_eq_one)
  have ok: "\<exists>Y. coldfilt X ha hb = Some (Inr Y)"
    if "is_matrix X" "0 < nrows X" "0 < ncols X" "ha \<noteq> []"
      "nrows X mod 4 = 0" "length ha = length hb" "even (length ha)"
  proof -
    have "shaped (nrows X) (ncols X) X" using that(1) by (rule is_matrix_shaped)
    from coldfilt_shaped [OF this that(2,5,3,4,6,7)] show ?thesis by blast
  qed
  have iff: "(\<exists>e. coldfilt X ha hb = Some (Inl e)) \<longleftrightarrow>
         (nrows X mod 4 \<noteq> 0 \<or> length ha \<noteq> length hb \<or> odd (length ha))"
    if "is_matrix X" "0 < nrows X" "0 < ncols X" "ha \<noteq> []"
  proof
    assume "\<exists>e. coldfilt X ha hb = Some (Inl e)"
    then show "nrows X mod 4 \<noteq> 0 \<or> length ha \<noteq> length hb \<or> odd (length ha)"
      using ok [OF that] by auto
  next
    assume "nrows X mod 4 \<noteq> 0 \<or> length ha \<noteq> length hb \<or> odd (length ha)"
    then show "\<exists>e. coldfilt X ha hb = Some (Inl e)"
      using e1 e2 e3 by blast
  qed
  show ?thesis
    by (intro conjI impI; (rule e1 e2 e3 ok iff; assumption))
qed

theorem coldfilt_errors_witness:
  "coldfilt [[1], [2], [3 :: real]] [1, 2] [2, 1]
     = Some (Inl (ValueError ''No. of rows in X must be a multiple of 4'')) \<and>
   coldfilt [[1], [2], [3], [4 :: real]] [1, 2] [1]
     = Some (Inl (ValueError ''Shapes of ha and hb must be the same'')) \<and>
   coldfilt [[1], [2], [3], [4 :: real]] [1, 2, 3] [3, 2, 1]
     = Some (Inl (ValueError ''Lengths of ha and hb must be even'')) \<and>
   (\<exists>Y. coldfilt [[1], [2], [3], [4 :: real]] [1, 2] [2, 1] = Some (Inr Y)) \<and>
   \<not> (\<exists>e. coldfilt [[1], [2], [3], [4 :: real]] [1, 2] [2, 1] = Some (Inl e))"
proof -
  have h: "is_matrix [[1], [2], [3], [4 :: real]]" "0 < nrows [[1], [2], [3], [4 :: real]]"
    "0 < ncols [[1], [2], [3], [4 :: real]]" "nrows [[1], [2], [3], [4 :: real]] mod 4 = 0"
    "nrows [[1], [2], [3 :: real]] mod 4 \<noteq> 0"
    by (simp_all add: is_matrix_def nrows_def ncols_def)
  from coldfilt_errors [of "[[1], [2], [3]]" "[1, 2]" "[2, 1]"] h(5)
  have 1: "coldfilt [[1], [2], [3 :: real]] [1, 2] [2, 1]
     = Some (Inl (ValueError ''No. of rows in X must be a multiple of 4''))"
    by blast
  from coldfilt_errors [of "[[1], [2], [3], [4]]" "[1, 2]" "[1]"] h(4)
  have 2: "coldfilt [[1], [2], [3], [4 :: real]] [1, 2] [1]
     = Some (Inl (ValueError ''Shapes of ha and hb must be the same''))"
    by simp
  from coldfilt_errors [of "[[1], [2], [3], [4]]" "[1, 2, 3]" "[3, 2, 1]"] h(4)
  have 3: "coldfilt [[1], [2], [3], [4 :: real]] [1, 2, 3] [3, 2, 1]
     = Some (Inl (ValueError ''Lengths of ha and hb must be even''))"
    by simp
  from coldfilt_errors [of "[[1], [2], [3], [4]]" "[1, 2]" "[2, 1]"] h(1-4)
  have 4: "\<exists>Y. coldfilt [[1], [2], [3], [4 :: real]] [1, 2] [2, 1] = Some (Inr Y)"
    and 5: "\<not> (\<exists>e. coldfilt [[1], [2], [3], [4 :: real]] [1, 2] [2, 1] = Some (Inl e))"
    by simp_all
  from 1 2 3 4 5 show ?thesis by blast
qed

text \<open>
  The zero image. For an identically zero image with an even, positive number of rows \<open>R\<close>
  and \<open>C\<close> columns and every equal-length even-length pair of non-empty filters,
  \<open>colifilt\<close> takes the short cut (the test \<open>np.any(np.nonzero(X[:])[0])\<close> is false) and
  returns the zero array of \<open>2R\<close> rows and \<open>C\<close> columns, and the general path run on the
  same input returns the same array.
\<close>

lemma colifilt_zero_fast_path:
  assumes "0 < r" and "even r" and "0 < c"
    and "ha \<noteq> []" and "length ha = length hb" and "even (length ha)"
  shows "\<not> np_any (nonzero_rows (zeros r c)) \<and>
         colifilt (zeros r c) ha hb = Some (Inr (zeros (2 * r) c)) \<and>
         colifilt_general (zeros r c) ha hb (zeros (2 * r) c) = colifilt (zeros r c) ha hb"
proof -
  have nz: "\<not> np_any (nonzero_rows (zeros r c))"
    by (simp add: nonzero_rows_zeros np_any_def)
  have "nrows (zeros r c) = r" by (simp add: nrows_def zeros_def)
  moreover have "ncols (zeros r c) = c"
    using assms(1) by (cases r) (simp_all add: ncols_def zeros_def)
  ultimately have "colifilt (zeros r c) ha hb = Some (Inr (zeros (2 * r) c))"
    using nz assms(2,5,6) by (simp add: colifilt_def Let_def mult.commute)
  with nz colifilt_general_zeros [OF assms] show ?thesis by simp
qed

lemma colifilt_zero_fast_path_example:
  "colifilt (zeros 2 2) [1, 2] [2, 1] = Some (Inr [[0, 0], [0, 0], [0, 0], [0, 0]]) \<and>
   colifilt_general (zeros 2 2) [1, 2] [2, 1] (zeros 4 2)
     = Some (Inr [[0, 0], [0, 0], [0, 0], [0, 0]])"
  by code_simp

text \<open>
  C9: the code against the claim. The claim says that the short cut of \<open>colifilt\<close> is taken
  on an identically zero image and is a pure optimisation that never changes the output;
  the docstring says ``Modified to be fast if X = 0''. The test of the code,
  \<open>not np.any(np.nonzero(X[:])[0])\<close>, looks at the row indices of the non-zero entries, so
  an image whose non-zero entries all lie in row 0 takes the short cut too. On
  \<open>[[1, 2], [0, 0]]\<close> with \<open>ha = [1, 2]\<close>, \<open>hb = [2, 1]\<close> the row indices are all 0,
  \<open>np.any\<close> of them is false, the short cut is taken and \<open>colifilt\<close> returns the zero
  array, while the general path on the same input returns
  \<open>[[1, 2], [0, 0], [2, 4], [0, 0]]\<close>.
\<close>

theorem colifilt_fast_path_first_row:
  "\<not> np_any (nonzero_rows [[1, 2], [0, 0]]) \<and>
   colifilt [[1, 2], [0, 0]] [1, 2] [2, 1] = Some (Inr [[0, 0], [0, 0], [0, 0], [0, 0]]) \<and>
   colifilt_general [[1, 2], [0, 0]] [1, 2] [2, 1] (zeros 4 2)
     = Some (Inr [[1, 2], [0, 0], [2, 4], [0, 0]])"
  by code_simp

text \<open>
  C2. For every real matrix \<open>y\<close> with an even number of rows and an even number of columns,
  \<open>c2q(q2c(y), [1, 1])\<close> is \<open>y\<close>: over the reals the round trip is exact (no exception is
  raised and every entry is recovered).
\<close>

theorem c2q_q2c_identity:
  assumes "is_matrix y" and "even (nrows y)" and "even (ncols y)"
  shows "bind_e (q2c y) (\<lambda>z. c2q z [1, 1]) = Inr y"
proof -
  from assms(2,3) obtain H W where "nrows y = 2 * H" "ncols y = 2 * W"
    by (auto elim!: evenE)
  with is_matrix_shaped [OF assms(1)] have "shaped (2 * H) (2 * W) y" by simp
  then show ?thesis by (rule c2q_q2c_entries)
qed

theorem c2q_q2c_identity_witness:
  "is_matrix [[1, 2], [3, 4 :: real]] \<and> even (nrows [[1, 2], [3, 4 :: real]]) \<and>
   even (ncols [[1, 2], [3, 4 :: real]]) \<and>
   bind_e (q2c [[1, 2], [3, 4]]) (\<lambda>z. c2q z [1, 1]) = Inr [[1, 2], [3, 4]]"
proof -
  have h: "is_matrix [[1, 2], [3, 4 :: real]]" "even (nrows [[1, 2], [3, 4 :: real]])"
    "even (ncols [[1, 2], [3, 4 :: real]])"
    by (simp_all add: is_matrix_def nrows_def ncols_def)
  from c2q_q2c_identity [OF h] h show ?thesis by simp
qed

lemma level_step_subband_shape:
  assumes "is_matrix X" and "0 < nrows X" and "even (nrows X)" and "0 < ncols X" and "even (ncols X)"
    and "qshift_even qs"
  shows "\<exists>P LoLo T. extend4 X = Inr P \<and> level_step qs X = Some (Inr (LoLo, T)) \<and>
            nrows LoLo = nrows P div 2 \<and> ncols LoLo = ncols P div 2 \<and>
            tshaped (nrows LoLo div 2) (ncols LoLo div 2) 6 T \<and>
            tshaped (nrows P div 4) (ncols P div 4) 6 T"
proof -
  have X: "shaped (nrows X) (ncols X) X" using assms(1) by (rule is_matrix_shaped)
  from level_step_shaped [OF X assms(2,3,4,5,6)]
  obtain P LoLo T where s: "extend4 X = Inr P" "shaped (pad4 (nrows X)) (pad4 (ncols X)) P"
    "level_step qs X = Some (Inr (LoLo, T))"
    "shaped (pad4 (nrows X) div 2) (pad4 (ncols X) div 2) LoLo"
    "tshaped (pad4 (nrows X) div 4) (pad4 (ncols X) div 4) 6 T"
    by blast
  note pr = pad4_even [OF assms(3,2)] and pc = pad4_even [OF assms(5,4)]
  have p: "0 < pad4 (nrows X)" using assms(2) by (simp add: pad4_def)
  have P: "nrows P = pad4 (nrows X)" "ncols P = pad4 (ncols X)"
    using s(2) p by (simp_all add: shaped_nrows shaped_ncols)
  have L: "nrows LoLo = pad4 (nrows X) div 2" "ncols LoLo = pad4 (ncols X) div 2"
    using s(4) pr(4) by (simp_all add: shaped_nrows shaped_ncols)
  have q: "pad4 (nrows X) div 2 div 2 = pad4 (nrows X) div 4"
    "pad4 (ncols X) div 2 div 2 = pad4 (ncols X) div 4"
    by (simp_all add: div_mult2_eq [symmetric])
  from s(1,3,5) have "extend4 X = Inr P \<and> level_step qs X = Some (Inr (LoLo, T)) \<and>
            nrows LoLo = nrows P div 2 \<and> ncols LoLo = ncols P div 2 \<and>
            tshaped (nrows LoLo div 2) (ncols LoLo div 2) 6 T \<and>
            tshaped (nrows P div 4) (ncols P div 4) 6 T"
    by (simp add: P L q)
  then show ?thesis by blast
qed

text \<open>
  C3, as amended. For a non-empty image \<open>X\<close> (after \<open>np.atleast_2d\<close>), \<open>nlevels \<ge> 1\<close>, odd
  level-1 filters and even, equal-length level filters, \<open>dtwavexfm2\<close> returns, \<open>Yh\<close> has
  \<open>nlevels\<close> slots, and the subband array in slot \<open>l\<close> (level \<open>l + 1\<close>) has shape
  \<open>(H, W, 6)\<close> where, along each axis: at level 1, the count is half that of the extended
  input image; at a level \<open>\<ge> 2\<close>, it is a quarter of the count of the padded lowpass image
  entering the level's filters, which is half the count of the lowpass image the level
  produces. The lowpass image after level \<open>k + 1\<close> has \<open>lolo_dim s k\<close> rows (columns) for
  \<open>s\<close> rows (columns) of extended input: the returned \<open>Yl\<close> is the one after the last
  level. Lemma \<open>level_step_subband_shape\<close> states the same for one pass of the loop body, with
  the padded image \<open>P\<close> named.
\<close>

theorem subband_shapes:
  assumes "is_matrix X" and "0 < nrows X" and "0 < ncols X"
    and "odd (length (h0o bi))" and "odd (length (h1o bi))" and "qshift_even qs" and "1 \<le> n"
  shows "\<exists>res. dtwavexfm2 X n bi qs inc = Some (Inr res) \<and> length (Yh res) = nat n \<and>
           shaped (lolo_dim (nrows X + nrows X mod 2) (nat n - 1))
                  (lolo_dim (ncols X + ncols X mod 2) (nat n - 1)) (Yl res) \<and>
           (\<forall>l<nat n. \<exists>T. Yh res ! l = Some T \<and>
              tshaped (subband_dim (nrows X + nrows X mod 2) l)
                      (subband_dim (ncols X + ncols X mod 2) l) 6 T)"
proof -
  have X: "shaped (nrows X) (ncols X) X" using assms(1) by (rule is_matrix_shaped)
  have d: "lolo_dim s l div 2 = subband_dim s l" for s l
  proof (cases l)
    case 0
    then show ?thesis by (simp add: subband_dim_def)
  next
    case (Suc k)
    then show ?thesis by (simp add: subband_dim_def div_mult2_eq [symmetric])
  qed
  from dtwavexfm2_shapes [OF X assms(2-7), of inc] show ?thesis
    by (simp only: d)
qed

theorem subband_shapes_witness:
  "is_matrix [[1, 2, 3, 4], [5, 6, 7, 8], [9, 10, 11, 12], [13, 14, 15, 16 :: real]] \<and>
   qshift_even \<lparr>h0a = [1, 2], h0b = [2, 1], g0a = [1, 2], g0b = [2, 1],
                h1a = [1, - 1], h1b = [- 1, 1], g1a = [1, - 1], g1b = [- 1, 1]\<rparr> \<and>
   (\<exists>res. dtwavexfm2 [[1, 2, 3, 4], [5, 6, 7, 8], [9, 10, 11, 12], [13, 14, 15, 16]] 2
        \<lparr>h0o = [1, 2, 1], g0o = [1, 2, 1], h1o = [1, - 2, 1], g1o = [1, - 2, 1]\<rparr>
        \<lparr>h0a = [1, 2], h0b = [2, 1], g0a = [1, 2], g0b = [2, 1],
         h1a = [1, - 1], h1b = [- 1, 1], g1a = [1, - 1], g1b = [- 1, 1]\<rparr> False = Some (Inr res) \<and>
      length (Yh res) = 2 \<and> shaped 2 2 (Yl res) \<and>
      (\<exists>T. Yh res ! 0 = Some T \<and> tshaped 2 2 6 T) \<and>
      (\<exists>T. Yh res ! 1 = Some T \<and> tshaped 1 1 6 T))"
proof -
  let ?X = "[[1, 2, 3, 4], [5, 6, 7, 8], [9, 10, 11, 12], [13, 14, 15, 16 :: real]]"
  let ?qs = "\<lparr>h0a = [1, 2], h0b = [2, 1], g0a = [1, 2], g0b = [2, 1],
              h1a = [1, - 1], h1b = [- 1, 1], g1a = [1, - 1], g1b = [- 1, 1 :: real]\<rparr>"
  let ?bi = "\<lparr>h0o = [1, 2, 1], g0o = [1, 2, 1], h1o = [1, - 2, 1], g1o = [1, - 2, 1 :: real]\<rparr>"
  have h: "is_matrix ?X" "0 < nrows ?X" "0 < ncols ?X"
    "odd (length (h0o ?bi))" "odd (length (h1o ?bi))" "qshift_even ?qs" "(1 :: int) \<le> 2"
    by (simp_all add: is_matrix_def nrows_def ncols_def qshift_even_def)
  have s: "nrows ?X + nrows ?X mod 2 = 4" "ncols ?X + ncols ?X mod 2 = 4" "nat 2 = 2"
    by (simp_all add: nrows_def ncols_def)
  have d: "lolo_dim 4 (2 - 1) = 2" "subband_dim 4 0 = 2" "subband_dim 4 1 = 1"
    by (simp_all add: subband_dim_def pad4_def)
  from subband_shapes [OF h, of False] obtain res where
    r: "dtwavexfm2 ?X 2 ?bi ?qs False = Some (Inr res)" "length (Yh res) = nat 2"
      "shaped (lolo_dim (nrows ?X + nrows ?X mod 2) (nat 2 - 1))
              (lolo_dim (ncols ?X + ncols ?X mod 2) (nat 2 - 1)) (Yl res)"
      "\<forall>l<nat 2. \<exists>T. Yh res ! l = Some T \<and>
              tshaped (subband_dim (nrows ?X + nrows ?X mod 2) l)
                      (subband_dim (ncols ?X + ncols ?X mod 2) l) 6 T"
    by blast
  from r(2) have len: "length (Yh res) = 2" by (simp only: s)
  from r(3) have yl: "shaped 2 2 (Yl res)" by (simp only: s d)
  from r(4) have a: "\<forall>l<2. \<exists>T. Yh res ! l = Some T \<and> tshaped (subband_dim 4 l) (subband_dim 4 l) 6 T"
    by (simp only: s)
  have "(0 :: nat) < 2" "(1 :: nat) < 2" by simp_all
  with a have "\<exists>T. Yh res ! 0 = Some T \<and> tshaped (subband_dim 4 0) (subband_dim 4 0) 6 T"
    "\<exists>T. Yh res ! 1 = Some T \<and> tshaped (subband_dim 4 1) (subband_dim 4 1) 6 T"
    by blast+
  then have b: "\<exists>T. Yh res ! 0 = Some T \<and> tshaped 2 2 6 T" "\<exists>T. Yh res ! 1 = Some T \<and> tshaped 1 1 6 T"
    by (simp_all only: d)
  from r(1) len yl b h(1,6) show ?thesis by blast
qed

text \<open>
  C3 as stated fails at level 2. On a \<open>4 \<times> 4\<close> image, level 1 leaves a \<open>4 \<times> 4\<close> lowpass
  image \<open>L1\<close>, which enters level 2 unchanged by the padding (its counts are multiples of
  4); the subband array of level 2, \<open>Yh[1]\<close>, has shape \<open>(1, 1, 6)\<close>, a quarter of the
  entering image along each axis, not the half \<open>(2, 2, 6)\<close>.
\<close>

theorem subband_half_counterexample:
  "\<exists>L1 T1 L2 T2.
     level1 \<lparr>h0o = [1, 2, 1], g0o = [1, 2, 1], h1o = [1, - 2, 1], g1o = [1, - 2, 1]\<rparr>
       [[1, 2, 3, 4], [5, 6, 7, 8], [9, 10, 11, 12], [13, 14, 15, 16]] = Some (Inr (L1, T1)) \<and>
     nrows L1 = 4 \<and> ncols L1 = 4 \<and> extend4 L1 = Inr L1 \<and>
     level_step \<lparr>h0a = [1, 2], h0b = [2, 1], g0a = [1, 2], g0b = [2, 1],
                 h1a = [1, - 1], h1b = [- 1, 1], g1a = [1, - 1], g1b = [- 1, 1]\<rparr> L1
       = Some (Inr (L2, T2)) \<and>
     dtwavexfm2 [[1, 2, 3, 4], [5, 6, 7, 8], [9, 10, 11, 12], [13, 14, 15, 16]] 2
        \<lparr>h0o = [1, 2, 1], g0o = [1, 2, 1], h1o = [1, - 2, 1], g1o = [1, - 2, 1]\<rparr>
        \<lparr>h0a = [1, 2], h0b = [2, 1], g0a = [1, 2], g0b = [2, 1],
         h1a = [1, - 1], h1b = [- 1, 1], g1a = [1, - 1], g1b = [- 1, 1]\<rparr> False
       = Some (Inr \<lparr>Yl = L2, Yh = [Some T1, Some T2], Yscale = None,
                    row_extended = False, col_extended = False\<rparr>) \<and>
     tshaped 1 1 6 T2 \<and> \<not> tshaped (nrows L1 div 2) (ncols L1 div 2) 6 T2"
proof -
  let ?X = "[[1, 2, 3, 4], [5, 6, 7, 8], [9, 10, 11, 12], [13, 14, 15, 16 :: real]]"
  let ?qs = "\<lparr>h0a = [1, 2], h0b = [2, 1], g0a = [1, 2], g0b = [2, 1],
              h1a = [1, - 1], h1b = [- 1, 1], g1a = [1, - 1], g1b = [- 1, 1 :: real]\<rparr>"
  let ?bi = "\<lparr>h0o = [1, 2, 1], g0o = [1, 2, 1], h1o = [1, - 2, 1], g1o = [1, - 2, 1 :: real]\<rparr>"
  have X: "shaped (2 * 2) (2 * 2) ?X" by (simp add: shaped_def)
  have qs: "qshift_even ?qs" by (simp add: qshift_even_def)
  have ee: "extend_even ?X = Inr ?X"
    by (simp add: extend_even_def nrows_def ncols_def bind_e_def)
  from level1_shaped [OF X, of ?bi]
  obtain L1 T1 where l1: "level1 ?bi ?X = Some (Inr (L1, T1))" "shaped (2 * 2) (2 * 2) L1"
    by auto
  from l1(2) have s1: "shaped 4 4 L1" by simp
  have n1: "nrows L1 = 4" "ncols L1 = 4"
    using s1 by (simp_all add: shaped_nrows shaped_ncols)
  have e4: "extend4 L1 = Inr L1"
    by (simp add: extend4_def n1 bind_e_def)
  have p: "pad4 4 div 4 = 1" by (simp add: pad4_def)
  from level_step_shaped [OF s1 _ _ _ _ qs]
  obtain L2 T2 where st: "level_step ?qs L1 = Some (Inr (L2, T2))" "tshaped 1 1 6 T2"
    unfolding p by auto
  have lp: "level_loop ?qs False [1..<2] (L1, (replicate 2 None)[0 := Some T1], replicate 2 None)
      = Some (Inr (L2, [Some T1, Some T2], [None, None]))"
    by (simp add: st(1) upt_rec numeral_2_eq_2)
  have e: "dtwavexfm2 ?X 2 ?bi ?qs False
       = Some (Inr \<lparr>Yl = L2, Yh = [Some T1, Some T2], Yscale = None,
                    row_extended = False, col_extended = False\<rparr>)"
    unfolding dtwavexfm2_def ee
    by (simp add: Let_def l1(1) lp nrows_def ncols_def del: One_nat_def)
  have "\<not> tshaped (nrows L1 div 2) (ncols L1 div 2) 6 T2"
    using st(2) by (simp add: n1 tshaped_def shaped_def)
  with l1(1) n1 e4 st e show ?thesis by blast
qed

text \<open>
  C8: what the code does against the per-level capture the claim asks for. With
  \<open>include_scale\<close> set and \<open>nlevels \<ge> 2\<close>, on an image with odd level-1 filters and even
  level filters, \<open>dtwavexfm2\<close> returns, and its scale sequence holds the final lowpass
  image \<open>Yl\<close> (the one of the last level) in slot 0 and \<open>None\<close> in every other slot: each
  level \<open>\<ge> 2\<close> stores into slot 0 (\<open>Yscale[0] = LoLo\<close>), so the level-1 image is
  overwritten and no later slot is filled.
\<close>

theorem dtwavexfm2_scale_slot0:
  assumes "is_matrix X" and "0 < nrows X" and "0 < ncols X"
    and "odd (length (h0o bi))" and "odd (length (h1o bi))" and "qshift_even qs" and "2 \<le> n"
  shows "\<exists>res. dtwavexfm2 X n bi qs True = Some (Inr res) \<and>
           Yscale res = Some (Some (Yl res) # replicate (nat n - 1) None)"
proof -
  have "shaped (nrows X) (ncols X) X" using assms(1) by (rule is_matrix_shaped)
  from dtwavexfm2_scale [OF this assms(2-7)] show ?thesis by blast
qed

theorem dtwavexfm2_scale_slot0_witness:
  "is_matrix [[1, 2, 3, 4], [5, 6, 7, 8], [9, 10, 11, 12], [13, 14, 15, 16 :: real]] \<and>
   qshift_even \<lparr>h0a = [1, 2], h0b = [2, 1], g0a = [1, 2], g0b = [2, 1],
                h1a = [1, - 1], h1b = [- 1, 1], g1a = [1, - 1], g1b = [- 1, 1]\<rparr> \<and>
   (\<exists>res. dtwavexfm2 [[1, 2, 3, 4], [5, 6, 7, 8], [9, 10, 11, 12], [13, 14, 15, 16]] 2
        \<lparr>h0o = [1, 2, 1], g0o = [1, 2, 1], h1o = [1, - 2, 1], g1o = [1, - 2, 1]\<rparr>
        \<lparr>h0a = [1, 2], h0b = [2, 1], g0a = [1, 2], g0b = [2, 1],
         h1a = [1, - 1], h1b = [- 1, 1], g1a = [1, - 1], g1b = [- 1, 1]\<rparr> True = Some (Inr res) \<and>
      Yscale res = Some [Some (Yl res), None])"
proof -
  let ?X = "[[1, 2, 3, 4], [5, 6, 7, 8], [9, 10, 11, 12], [13, 14, 15, 16 :: real]]"
  let ?qs = "\<lparr>h0a = [1, 2], h0b = [2, 1], g0a = [1, 2], g0b = [2, 1],
              h1a = [1, - 1], h1b = [- 1, 1], g1a = [1, - 1], g1b = [- 1, 1 :: real]\<rparr>"
  let ?bi = "\<lparr>h0o = [1, 2, 1], g0o = [1, 2, 1], h1o = [1, - 2, 1], g1o = [1, - 2, 1 :: real]\<rparr>"
  have h: "is_matrix ?X" "0 < nrows ?X" "0 < ncols ?X"
    "odd (length (h0o ?bi))" "odd (length (h1o ?bi))" "qshift_even ?qs" "(2 :: int) \<le> 2"
    by (simp_all add: is_matrix_def nrows_def ncols_def qshift_even_def)
  from dtwavexfm2_scale_slot0 [OF h] h(1,6) show ?thesis by simp
qed

end
